theory Spec2Isabelle
  imports Complex_Main "HOL-Library.Signed_Division"
begin

unbundle bit_operations_syntax

section \<open>Machine arithmetic of the firmware\<close>

text \<open>
  The firmware is C++ for a 32-bit microcontroller. Integers are modelled as \<open>int\<close> and
  \<open>nat\<close> with every conversion to a fixed-width type written out: \<open>int16_t\<close> and
  \<open>int32_t\<close> wrap to two's complement, unsigned 32-bit subtraction wraps modulo
  \<open>2^32\<close>. Division \<open>/\<close> and remainder \<open>%\<close> on signed operands truncate towards
  zero (\<open>sdiv\<close>, \<open>smod\<close>); \<open>>>\<close> on a signed operand is the arithmetic shift, that
  is HOL's flooring \<open>div\<close> by a power of two. Values of type \<open>float\<close> are modelled by
  exact rationals: rounding of single-precision arithmetic is not represented.
\<close>

definition int16_t :: "int \<Rightarrow> int" where
  "int16_t v = (v + 32768) mod 65536 - 32768"

definition int32_t :: "int \<Rightarrow> int" where
  "int32_t v = (v + 2147483648) mod 4294967296 - 2147483648"

definition uint8_t :: "int \<Rightarrow> nat" where
  "uint8_t v = nat (v mod 256)"

definition uint16_t :: "int \<Rightarrow> nat" where
  "uint16_t v = nat (v mod 65536)"

definition uint32_t :: "nat \<Rightarrow> nat" where
  "uint32_t n = n mod 4294967296"

text \<open>\<open>a - b\<close> on two \<open>unsigned long\<close> values (32 bits on this target).\<close>

definition usub32 :: "nat \<Rightarrow> nat \<Rightarrow> nat" where
  "usub32 a b = (uint32_t a + 4294967296 - uint32_t b) mod 4294967296"

text \<open>Conversion of a \<open>float\<close> to an integer type truncates towards zero.\<close>

definition truncf :: "rat \<Rightarrow> int" where
  "truncf q = (if 0 \<le> q then \<lfloor>q\<rfloor> else \<lceil>q\<rceil>)"

text \<open>\<open>fmod(x, 1.0f)\<close>: the remainder of \<open>x\<close> after removing its integer part.\<close>

definition fmod1 :: "rat \<Rightarrow> rat" where
  "fmod1 x = x - of_int (truncf x)"

text \<open>
  \<open>1 << n\<close> on a 32-bit \<open>int\<close>: the shift by 31 gives the most negative value, a shift
  by 32 or more has no defined result.
\<close>

definition shl1 :: "nat \<Rightarrow> int option" where
  "shl1 n = (if n < 31 then Some (2 ^ n)
             else if n = 31 then Some (- 2147483648)
             else None)"

section \<open>Waveform core\<close>

text \<open>
  \<^verbatim>\<open>inline int16_t generateSawtooth(uint32_t ph) { return (int16_t)(ph >> 16) - 16384; }\<close>
  The cast applies to \<open>ph >> 16\<close> only; the difference is computed in \<open>int\<close> and
  converted to \<open>int16_t\<close> on return.
\<close>

definition generateSawtooth :: "nat \<Rightarrow> int" where
  "generateSawtooth ph = int16_t (int16_t (int (uint32_t ph div 65536)) - 16384)"

definition generateSquare :: "nat \<Rightarrow> int" where
  "generateSquare ph = (if uint32_t ph AND 2147483648 \<noteq> 0 then 16384 else - 16384)"

definition generateTriangle :: "nat \<Rightarrow> int" where
  "generateTriangle ph =
     (let quarter = uint32_t ph div 1073741824;
          low16 = int16_t (int ((uint32_t ph div 32768) AND 65535))
      in if quarter = 0 then int16_t (low16 - 16384)
         else if quarter = 1 then int16_t (16384 - low16)
         else if quarter = 2 then int16_t (16384 - low16)
         else int16_t (low16 - 16384))"

text \<open>
  \<open>applyBitCrusher(int16_t sample, uint8_t bits)\<close>; the local \<open>step\<close> is an
  \<open>int16_t\<close>, so \<open>32768 >> 0\<close> is stored as \<open>-32768\<close>.
\<close>

definition applyBitCrusher :: "int \<Rightarrow> nat \<Rightarrow> int" where
  "applyBitCrusher sample bits =
     (if bits \<ge> 8 then sample
      else let step = int16_t (32768 div 2 ^ bits)
           in int16_t ((sample sdiv step) * step))"

section \<open>Effects chain\<close>

subsection \<open>One-pole lowpass\<close>

text \<open>
  \<^verbatim>\<open>filterState = filterState + (((sample - filterState) * filterAmount) >> 12);\<close>
  with \<open>int32_t filterState, filterAmount\<close> and \<open>int16_t sample\<close>.
\<close>

definition filterUpdate :: "int \<Rightarrow> int \<Rightarrow> int \<Rightarrow> int" where
  "filterUpdate filterAmount sample filterState =
     int32_t (filterState + int32_t (int32_t (sample - filterState) * filterAmount) div 4096)"

text \<open>The filter state after \<open>n\<close> ticks with the same input sample and cutoff.\<close>

primrec filterRun :: "int \<Rightarrow> int \<Rightarrow> int \<Rightarrow> nat \<Rightarrow> int" where
  "filterRun c x s 0 = s"
| "filterRun c x s (Suc n) = filterUpdate c x (filterRun c x s n)"

subsection \<open>Echo line\<close>

definition MAX_DELAY_SAMPLES :: nat where
  "MAX_DELAY_SAMPLES = 11025"

text \<open>
  The parameters the echo block reads: \<open>siren.delayIndex\<close>, \<open>siren.echoTime\<close>,
  \<open>siren.echoFeedback\<close> and the fields of \<open>reverser\<close>.
\<close>

record EchoParams =
  delayIndex :: nat
  echoTime :: nat
  echoFeedback :: rat
  reverserActive :: bool
  reversing :: bool
  mixAmount :: rat
  pitchShift :: int

text \<open>
  The state the echo block owns: the ring \<open>echoBuffer[MAX_DELAY_SAMPLES]\<close> (a function
  of the index; only indices below \<open>MAX_DELAY_SAMPLES\<close> belong to the array), its write
  cursor, and the two function-local statics of the reverse tap.
\<close>

record EchoState =
  echoBuffer :: "nat \<Rightarrow> int"
  echoWritePos :: nat
  pitchCounter :: nat
  lastPitchSample :: int

text \<open>The reverse tap: re-samples the delayed signal and cross-fades it with the dry one.\<close>

definition reverseTap :: "EchoParams \<Rightarrow> EchoState \<Rightarrow> int \<Rightarrow> EchoState \<times> int" where
  "reverseTap p s delayedSample =
     (if reverserActive p \<and> reversing p then
        let drySignal = delayedSample;
            (s', wetSignal) =
              (if pitchShift p = - 2 then
                 let s1 = (if pitchCounter s mod 4 = 0
                           then s\<lparr>lastPitchSample := delayedSample\<rparr> else s)
                 in (s1\<lparr>pitchCounter := (pitchCounter s1 + 1) mod 65536\<rparr>, lastPitchSample s1)
               else if pitchShift p = - 1 then
                 let s1 = (if pitchCounter s mod 2 = 0
                           then s\<lparr>lastPitchSample := delayedSample\<rparr> else s)
                 in (s1\<lparr>pitchCounter := (pitchCounter s1 + 1) mod 65536\<rparr>, lastPitchSample s1)
               else if pitchShift p = 0 then (s, delayedSample)
               else if pitchShift p = 1 then
                 (s\<lparr>pitchCounter := (pitchCounter s + 2) mod 65536\<rparr>, delayedSample)
               else if pitchShift p = 2 then
                 (s\<lparr>pitchCounter := (pitchCounter s + 4) mod 65536\<rparr>, delayedSample)
               else (s, delayedSample))
        in (s', int16_t (truncf (of_int drySignal * (1 - mixAmount p)
                                 + of_int wetSignal * mixAmount p)))
      else (s, delayedSample))"

text \<open>
  One audio tick of the echo block of \<open>generateSample\<close>, applied to the dry
  \<open>filteredSample\<close>. The result is the new state, the sample read from the line
  (\<open>echoBuffer[readPos]\<close>; \<open>0\<close> when the delay is off) and the mixed output.
\<close>

definition echoStep :: "EchoParams \<Rightarrow> EchoState \<Rightarrow> int \<Rightarrow> EchoState \<times> int \<times> int" where
  "echoStep p s filteredSample =
     (if delayIndex p > 0 then
        let readPos = uint16_t ((int (echoWritePos s) + int MAX_DELAY_SAMPLES - int (echoTime p))
                                  smod int MAX_DELAY_SAMPLES);
            lineSample = echoBuffer s readPos;
            (s1, delayedSample) = reverseTap p s lineSample;
            feedbackSample =
              (if \<bar>filteredSample\<bar> < 50
               then int32_t (truncf (of_int delayedSample * echoFeedback p))
               else int32_t (truncf (of_int filteredSample + of_int delayedSample * echoFeedback p)));
            feedbackSample = (if feedbackSample > 32767 then 32767 else feedbackSample);
            feedbackSample = (if feedbackSample < - 32768 then - 32768 else feedbackSample);
            s2 = s1\<lparr>echoBuffer := (echoBuffer s1)(echoWritePos s1 := int16_t feedbackSample),
                    echoWritePos := (echoWritePos s1 + 1) mod MAX_DELAY_SAMPLES\<rparr>
        in (s2, lineSample, int16_t (filteredSample div 2 + delayedSample div 2))
      else
        (s\<lparr>echoBuffer := (echoBuffer s)(echoWritePos s := 0),
           echoWritePos := (echoWritePos s + 1) mod MAX_DELAY_SAMPLES\<rparr>, 0, filteredSample))"

text \<open>The samples read from the line, tick by tick, while the dry samples \<open>xs\<close> are fed in.\<close>

primrec echoReads :: "EchoParams \<Rightarrow> EchoState \<Rightarrow> int list \<Rightarrow> int list" where
  "echoReads p s [] = []"
| "echoReads p s (x # xs) = fst (snd (echoStep p s x)) # echoReads p (fst (echoStep p s x)) xs"

text \<open>What the feedback write stores for a dry sample when the feedback is zero.\<close>

definition noiseGate :: "int \<Rightarrow> int" where
  "noiseGate x = (if \<bar>x\<bar> < 50 then 0 else x)"

section \<open>Modulation and mutation engine\<close>

subsection \<open>Scales and pitch quantisation\<close>

definition minorPentatonic :: "rat list" where
  "minorPentatonic = [1, 1189 / 1000, 1335 / 1000, 1498 / 1000, 1782 / 1000, 2]"

definition minorPentatonicSize :: nat where
  "minorPentatonicSize = 6"

definition majorScale :: "rat list" where
  "majorScale = [1, 1122 / 1000, 1260 / 1000, 1335 / 1000, 1498 / 1000, 1682 / 1000,
                 1888 / 1000, 2]"

definition majorScaleSize :: nat where
  "majorScaleSize = 8"

definition bluesScale :: "rat list" where
  "bluesScale = [1, 1189 / 1000, 1260 / 1000, 1335 / 1000, 1498 / 1000, 1782 / 1000, 2]"

definition bluesScaleSize :: nat where
  "bluesScaleSize = 7"

definition minorScale :: "rat list" where
  "minorScale = [1, 1122 / 1000, 1189 / 1000, 1335 / 1000, 1498 / 1000, 1587 / 1000,
                 1782 / 1000, 2]"

definition minorScaleSize :: nat where
  "minorScaleSize = 8"

definition chromaticScale :: "rat list" where
  "chromaticScale = [1, 1059 / 1000, 1122 / 1000, 1189 / 1000, 1260 / 1000, 1335 / 1000,
                     1414 / 1000, 1498 / 1000, 1587 / 1000, 1682 / 1000, 1782 / 1000,
                     1888 / 1000, 2]"

definition chromaticScaleSize :: nat where
  "chromaticScaleSize = 13"

text \<open>
  The \<open>switch (mutate.currentScale)\<close> that opens both \<open>quantizePitchToScale\<close> and
  \<open>mutatePitch\<close>: \<open>SCALE_MINOR_PENT = 0\<close>, \<open>SCALE_MAJOR\<close>, \<open>SCALE_BLUES\<close>,
  \<open>SCALE_MINOR\<close>, \<open>SCALE_CHROMATIC\<close>, and the default.
\<close>

definition selectScale :: "nat \<Rightarrow> rat list" where
  "selectScale cs = (if cs = 0 then minorPentatonic
                     else if cs = 1 then majorScale
                     else if cs = 2 then bluesScale
                     else if cs = 3 then minorScale
                     else if cs = 4 then chromaticScale
                     else minorPentatonic)"

definition selectScaleSize :: "nat \<Rightarrow> nat" where
  "selectScaleSize cs = (if cs = 0 then minorPentatonicSize
                         else if cs = 1 then majorScaleSize
                         else if cs = 2 then bluesScaleSize
                         else if cs = 3 then minorScaleSize
                         else if cs = 4 then chromaticScaleSize
                         else minorPentatonicSize)"

text \<open>
  \<open>float quantizePitchToScale(float baseFreq, uint8_t scaleStep)\<close> with the global
  \<open>mutate.currentScale\<close> as first argument. The step is converted to \<open>uint8_t\<close> on
  entry, as the parameter type does. The parameter \<open>baseFreq\<close> is not used by the body:
  the root is the constant 110 Hz. The scale ratios are the decimal literals of the
  source.
\<close>

definition quantizePitchToScale :: "nat \<Rightarrow> rat \<Rightarrow> nat \<Rightarrow> rat option" where
  "quantizePitchToScale cs baseFreq scaleStep =
     (let scaleStep = uint8_t (int scaleStep);
          scale = selectScale cs;
          scaleSize = selectScaleSize cs;
          octave = scaleStep div scaleSize;
          noteInScale = scaleStep mod scaleSize;
          rootFreq = 110
      in case shl1 octave of
           None \<Rightarrow> None
         | Some k \<Rightarrow> Some (rootFreq * of_int k * scale ! noteInScale))"

subsection \<open>Mutation state and the random walk\<close>

text \<open>The enumerators the mutation code compares against, with their C values.\<close>

definition INST_DUB_SIREN :: nat where "INST_DUB_SIREN = 0"
definition INST_RAY_GUN :: nat where "INST_RAY_GUN = 1"
definition INST_LEAD_SYNTH :: nat where "INST_LEAD_SYNTH = 2"

definition MUTATE_OFF :: nat where "MUTATE_OFF = 0"
definition MUTATE_AMOUNT :: nat where "MUTATE_AMOUNT = 1"
definition MUTATE_RHYTHM :: nat where "MUTATE_RHYTHM = 2"
definition MUTATE_CUTOFF :: nat where "MUTATE_CUTOFF = 3"

record MutationState =
  mutateMode :: nat
  pitchStep :: nat
  speedStep :: nat
  mutationProbability :: rat
  lastMutateTime :: nat
  currentScale :: nat
  lockedProbabilityRaw :: nat
  lockedScaleRaw :: nat
  lockedCutoffRaw :: nat
  probabilityLocked :: bool
  scaleLocked :: bool
  cutoffLocked :: bool
  fullyDisabled :: bool

text \<open>
  The globals \<open>triggerMutation\<close> and its callees read or write: the \<open>mutate\<close> struct,
  the function-local static \<open>lastActiveMutateMode\<close>, the touched fields of \<open>siren\<close>
  (\<open>sirenStepInterval\<close> is \<open>siren.stepInterval\<close>) and the global \<open>octaveShift\<close>.
\<close>

record SynthState =
  mutate :: MutationState
  lastActiveMutateMode :: nat
  instrumentType :: nat
  baseFreq :: rat
  frequency :: rat
  lfoRate :: rat
  lfoDepth :: rat
  resonance :: rat
  stepCount :: nat
  noteFrequencies :: "rat list"
  sirenStepInterval :: nat
  octaveShift :: int

text \<open>The initial values of these globals, from their initialisers.\<close>

definition mutateBoot :: MutationState where
  "mutateBoot =
     \<lparr>mutateMode = MUTATE_OFF, pitchStep = 0, speedStep = 2, mutationProbability = 1 / 2,
      lastMutateTime = 0, currentScale = 0, lockedProbabilityRaw = 2048,
      lockedScaleRaw = 2048, lockedCutoffRaw = 2048, probabilityLocked = False,
      scaleLocked = False, cutoffLocked = False, fullyDisabled = False\<rparr>"

definition synthBoot :: SynthState where
  "synthBoot =
     \<lparr>mutate = mutateBoot, lastActiveMutateMode = MUTATE_AMOUNT,
      instrumentType = INST_DUB_SIREN, baseFreq = 440, frequency = 440, lfoRate = 1 / 2,
      lfoDepth = 8 / 10, resonance = 8 / 10, stepCount = 8,
      noteFrequencies = [440, 554, 659, 880, 659, 554, 440, 330, 0, 0, 0, 0, 0, 0, 0, 0],
      sirenStepInterval = 250, octaveShift = 0\<rparr>"

text \<open>
  The values returned by the calls of Arduino's \<open>random(n)\<close> in one mutation:
  \<open>random(100)\<close> and \<open>random(2)\<close> in \<open>mutatePitch\<close>, \<open>random(3)\<close> in
  \<open>mutateSpeed\<close>, \<open>random(41)\<close> in \<open>mutateModulation\<close>. \<open>random(n)\<close> returns a
  value in \<open>[0, n)\<close>.
\<close>

record Draws =
  random100 :: nat
  random2 :: nat
  random3 :: nat
  random41 :: nat

definition drawsInRange :: "Draws \<Rightarrow> bool" where
  "drawsInRange d = (random100 d < 100 \<and> random2 d < 2 \<and> random3 d < 3 \<and> random41 d < 41)"

text \<open>
  \<open>generateMelody\<close>: refills the first \<open>stepCount\<close> notes from a fixed six-note scale,
  indexed by the millisecond clock (\<open>tm\<close> is the value \<open>millis()\<close> returns there).
  \<open>noteFrequencies\<close> has 16 slots and \<open>stepCount\<close> is kept within 4..16 by its
  writers; an update past the end of the list leaves it unchanged here.
\<close>

definition melodyScale :: "rat list" where
  "melodyScale = [1, 12 / 10, 133 / 100, 15 / 10, 178 / 100, 2]"

definition generateMelody :: "nat \<Rightarrow> SynthState \<Rightarrow> SynthState" where
  "generateMelody tm st =
     (let rootFreq = baseFreq st
      in st\<lparr>noteFrequencies :=
               fold (\<lambda>i nf. nf[i := rootFreq * melodyScale ! (uint32_t (tm + i * 37) mod 6)])
                    [0 ..< stepCount st] (noteFrequencies st)\<rparr>)"

text \<open>
  First half of \<open>mutatePitch\<close>: the random walk on the scale step. The result is the
  value stored back into the \<open>uint8_t\<close> field \<open>mutate.pitchStep\<close>.
\<close>

definition pitchChange :: "Draws \<Rightarrow> nat \<Rightarrow> int" where
  "pitchChange d scaleSize =
     (let randomValue = uint8_t (int (random100 d))
      in if randomValue < 10 then (if random2 d = 0 then int scaleSize else - int scaleSize)
         else if randomValue < 40 then (if random2 d = 0 then 2 else - 2)
         else (if random2 d = 0 then 1 else - 1))"

definition mutatedPitchStep :: "Draws \<Rightarrow> MutationState \<Rightarrow> nat" where
  "mutatedPitchStep d m =
     (let scaleSize = selectScaleSize (currentScale m);
          change = pitchChange d scaleSize;
          newStep = int (pitchStep m) + change;
          newStep = (if newStep < 0 then 0 else newStep);
          newStep = (if newStep \<ge> int scaleSize * 4 then int scaleSize * 4 - 1 else newStep)
      in uint8_t newStep)"

text \<open>
  Second half of \<open>mutatePitch\<close>: the frequency of the new step, clamped to the range of
  the instrument and shifted by \<open>octaveShift\<close>. \<open>None\<close> stands for a shift without a
  defined result.
\<close>

definition clampFreq :: "rat \<Rightarrow> rat \<Rightarrow> rat \<Rightarrow> rat" where
  "clampFreq lo hi f = (let f = (if f < lo then lo else f) in if f > hi then hi else f)"

definition applyPitchFrequency :: "nat \<Rightarrow> SynthState \<Rightarrow> SynthState option" where
  "applyPitchFrequency tm st =
     (let scaleSize = selectScaleSize (currentScale (mutate st));
          octaveOffset = pitchStep (mutate st) div scaleSize;
          scaleNote = pitchStep (mutate st) mod scaleSize
      in case shl1 octaveOffset of
           None \<Rightarrow> None
         | Some k \<Rightarrow>
            (case quantizePitchToScale (currentScale (mutate st)) (100 * of_int k) scaleNote of
               None \<Rightarrow> None
             | Some newFreq \<Rightarrow>
                let (st1, newFreq) =
                      (if instrumentType st = INST_DUB_SIREN then (st, clampFreq 50 2000 newFreq)
                       else if instrumentType st = INST_RAY_GUN then (st, clampFreq 200 4000 newFreq)
                       else (generateMelody tm st, clampFreq 200 800 newFreq));
                    shifted =
                      (if octaveShift st1 > 0 then
                         map_option (\<lambda>k. newFreq * of_int k) (shl1 (nat (octaveShift st1)))
                       else if octaveShift st1 < 0 then
                         map_option (\<lambda>k. newFreq / of_int k) (shl1 (nat (- octaveShift st1)))
                       else Some newFreq)
                in map_option (\<lambda>f. st1\<lparr>baseFreq := f, frequency := f\<rparr>) shifted))"

definition mutatePitch :: "Draws \<Rightarrow> nat \<Rightarrow> SynthState \<Rightarrow> SynthState option" where
  "mutatePitch d tm st =
     applyPitchFrequency tm (st\<lparr>mutate := (mutate st)\<lparr>pitchStep := mutatedPitchStep d (mutate st)\<rparr>\<rparr>)"

definition tempoSteps :: "rat list" where
  "tempoSteps = [1 / 2, 1, 2, 35 / 10, 5, 8, 12, 16, 20]"

definition tempoStepCount :: nat where
  "tempoStepCount = 9"

definition mutateSpeed :: "Draws \<Rightarrow> SynthState \<Rightarrow> SynthState" where
  "mutateSpeed d st =
     (let change = int (random3 d) - 1;
          newStep = int (speedStep (mutate st)) + change;
          newStep = (if newStep < 0 then 0 else newStep);
          newStep = (if newStep \<ge> int tempoStepCount then int tempoStepCount - 1 else newStep);
          st1 = st\<lparr>mutate := (mutate st)\<lparr>speedStep := uint8_t newStep\<rparr>\<rparr>
      in if instrumentType st1 = INST_LEAD_SYNTH then
           st1\<lparr>sirenStepInterval :=
                 uint16_t (60 + int (uint16_t (truncf
                   (of_nat (speedStep (mutate st1)) / of_nat tempoStepCount * 420))))\<rparr>
         else st1\<lparr>lfoRate := tempoSteps ! speedStep (mutate st1)\<rparr>)"

definition mutateModulation :: "Draws \<Rightarrow> SynthState \<Rightarrow> SynthState" where
  "mutateModulation d st =
     (let change = of_int (int (random41 d) - 20) / 100
      in if instrumentType st = INST_DUB_SIREN then
           st\<lparr>lfoDepth := clampFreq 0 1 (lfoDepth st + change)\<rparr>
         else if instrumentType st = INST_RAY_GUN then
           st\<lparr>resonance := clampFreq (3 / 10) (95 / 100) (resonance st + change * (1 / 2))\<rparr>
         else st)"

text \<open>
  \<open>triggerMutation\<close>; \<open>now\<close> is the value of \<open>millis()\<close> read at entry. The two early
  returns come before any write.
\<close>

definition triggerMutation :: "Draws \<Rightarrow> nat \<Rightarrow> nat \<Rightarrow> SynthState \<Rightarrow> SynthState option" where
  "triggerMutation d now tm st =
     (if fullyDisabled (mutate st) then Some st
      else if usub32 now (lastMutateTime (mutate st)) < 100 then Some st
      else
        let st1 = st\<lparr>mutate := (mutate st)\<lparr>lastMutateTime := uint32_t now\<rparr>\<rparr>;
            st2 = (if mutateMode (mutate st1) \<noteq> MUTATE_OFF
                   then st1\<lparr>lastActiveMutateMode := mutateMode (mutate st1)\<rparr> else st1)
        in if lastActiveMutateMode st2 = MUTATE_AMOUNT then mutatePitch d tm st2
           else if lastActiveMutateMode st2 = MUTATE_RHYTHM then
             map_option (mutateSpeed d) (mutatePitch d tm st2)
           else if lastActiveMutateMode st2 = MUTATE_CUTOFF then
             map_option (\<lambda>s. mutateModulation d (mutateSpeed d s)) (mutatePitch d tm st2)
           else Some st2)"

section \<open>Loop pattern generator\<close>

definition LOOP_OFF :: nat where "LOOP_OFF = 0"
definition LOOP_TRIPLET :: nat where "LOOP_TRIPLET = 1"
definition LOOP_SWING :: nat where "LOOP_SWING = 2"
definition LOOP_STACCATO :: nat where "LOOP_STACCATO = 3"
definition LOOP_GATE :: nat where "LOOP_GATE = 4"
definition LOOP_RATCHET :: nat where "LOOP_RATCHET = 5"
definition LOOP_DOTTED :: nat where "LOOP_DOTTED = 6"

record LoopState =
  loopActive :: bool
  pattern :: nat
  patternStartTime :: nat
  patternTempo :: nat
  gateState :: bool

definition loopStateBoot :: LoopState where
  "loopStateBoot =
     \<lparr>loopActive = False, pattern = LOOP_OFF, patternStartTime = 0, patternTempo = 480,
      gateState = False\<rparr>"

text \<open>
  \<open>evaluateLoopPattern\<close>, with the value \<open>now\<close> of \<open>millis()\<close> as argument.
  \<open>elapsed % cycleTime\<close> has no defined result for a zero \<open>cycleTime\<close>: \<open>None\<close>.
  The thresholds are the decimal literals of the source.
\<close>

definition loopPosition :: "nat \<Rightarrow> nat \<Rightarrow> rat" where
  "loopPosition elapsed cycleTime = of_nat (elapsed mod cycleTime) / of_nat cycleTime"

definition evaluateLoopPattern :: "LoopState \<Rightarrow> nat \<Rightarrow> bool option" where
  "evaluateLoopPattern ls now =
     (if \<not> loopActive ls \<or> pattern ls = LOOP_OFF then Some True
      else
        let elapsed = usub32 now (patternStartTime ls);
            cycleTime = patternTempo ls
        in if cycleTime = 0 then None
           else
             let position = loopPosition elapsed cycleTime
             in if pattern ls = LOOP_TRIPLET then Some (fmod1 (position * 6) < 1 / 2)
                else if pattern ls = LOOP_SWING then Some (fmod1 (position * 3) < 6 / 10)
                else if pattern ls = LOOP_STACCATO then Some (fmod1 (position * 4) < 1 / 4)
                else if pattern ls = LOOP_GATE then Some (position < 1 / 2)
                else if pattern ls = LOOP_RATCHET then Some (fmod1 (position * 12) < 1 / 2)
                else if pattern ls = LOOP_DOTTED then
                  (let subPosition = fmod1 (position * 4);
                       hitNum = truncf (position * 4)
                   in if hitNum smod 2 = 0 then Some (subPosition < 6 / 10)
                      else Some (subPosition < 3 / 10))
                else Some True)"

section \<open>Step sequencer\<close>



text \<open>
  The probe loop of \<open>loop1\<close>:
  \<^verbatim>\<open>while (!sequencer.stepEnabled[nextStep] && stepsChecked < 8) {
      nextStep = (nextStep + 1) % 8; stepsChecked++; }\<close>
  The result is the final \<open>nextStep\<close> and \<open>stepsChecked\<close>.
\<close>

function skipDisabled :: "bool list \<Rightarrow> nat \<Rightarrow> nat \<Rightarrow> nat \<times> nat" where
  "skipDisabled en nextStep stepsChecked =
     (if \<not> en ! nextStep \<and> stepsChecked < 8
      then skipDisabled en ((nextStep + 1) mod 8) (stepsChecked + 1)
      else (nextStep, stepsChecked))"
  by pat_completeness auto
termination
  by (relation "measure (\<lambda>(en, nextStep, stepsChecked). 8 - stepsChecked)") auto

declare skipDisabled.simps [simp del]





section \<open>Recorder\<close>







section \<open>Output path of the sequencer\<close>




section \<open>Verification\<close>

subsection \<open>Conversions that do not wrap\<close>

lemma int16_t_range: "- 32768 \<le> int16_t v \<and> int16_t v \<le> 32767"
  unfolding int16_t_def
  by (simp add: pos_mod_bound [of 65536 "v + 32768", simplified] add1_zle_eq flip: less_le)

lemma int16_t_id: "- 32768 \<le> v \<Longrightarrow> v \<le> 32767 \<Longrightarrow> int16_t v = v"
  unfolding int16_t_def by simp

lemma int32_t_id: "- 2147483648 \<le> v \<Longrightarrow> v \<le> 2147483647 \<Longrightarrow> int32_t v = v"
  unfolding int32_t_def by simp

lemma and_65535: "(n::nat) AND 65535 = n mod 65536"
proof -
  have "n AND mask 16 = take_bit 16 n" by (simp add: take_bit_eq_mask)
  then show ?thesis by (simp add: take_bit_eq_mod mask_eq_exp_minus_1)
qed

lemma usub32_uint32_t [simp]: "usub32 a (uint32_t b) = usub32 a b"
  by (simp add: usub32_def uint32_t_def)

subsection \<open>Truncating division\<close>

lemma sdiv_times_pos: "0 < m \<Longrightarrow> (k * m) sdiv m = (k::int)"
  by (simp add: signed_divide_int_def sgn_mult abs_mult sgn_mult_abs flip: mult.assoc)

lemma sdiv_mult_le: "0 < m \<Longrightarrow> \<bar>(a sdiv m) * m\<bar> \<le> \<bar>a::int\<bar>"
proof -
  assume m: "0 < m"
  have "\<bar>a\<bar> = \<bar>a\<bar> div m * m + \<bar>a\<bar> mod m" by simp
  moreover have "0 \<le> \<bar>a\<bar> mod m" using m by simp
  ultimately have q: "\<bar>a\<bar> div m * m \<le> \<bar>a\<bar>" by linarith
  have "\<bar>(a sdiv m) * m\<bar> = \<bar>sgn a\<bar> * (\<bar>a\<bar> div m * m)"
    using m by (simp add: signed_divide_int_def abs_mult pos_imp_zdiv_nonneg_iff)
  also have "\<dots> \<le> \<bar>a\<bar> div m * m"
    using m by (cases "a = 0") (simp_all add: abs_sgn_eq)
  finally show ?thesis using q by linarith
qed

lemma sdiv_mult_between:
  assumes "0 < m"
  shows "(0 \<le> a \<longrightarrow> 0 \<le> (a sdiv m) * m \<and> (a sdiv m) * m \<le> a)
       \<and> (a \<le> 0 \<longrightarrow> a \<le> (a sdiv m) * m \<and> (a sdiv m) * m \<le> (0::int))"
proof -
  have le: "\<bar>(a sdiv m) * m\<bar> \<le> \<bar>a\<bar>" using assms by (rule sdiv_mult_le)
  have q: "0 \<le> \<bar>a\<bar> div m * m" using assms by (simp add: pos_imp_zdiv_nonneg_iff)
  have e: "(a sdiv m) * m = sgn a * (\<bar>a\<bar> div m * m)"
    using assms by (simp add: signed_divide_int_def)
  show ?thesis
  proof (cases "0 \<le> a")
    case True
    then have "0 \<le> sgn a" by (simp add: sgn_if)
    then have "0 \<le> sgn a * (\<bar>a\<bar> div m * m)" using q by (rule mult_nonneg_nonneg)
    then have "0 \<le> (a sdiv m) * m" by (simp only: e)
    then show ?thesis using le True by auto
  next
    case False
    then have "sgn a \<le> 0" by (simp add: sgn_if)
    then have "sgn a * (\<bar>a\<bar> div m * m) \<le> 0" using q by (rule mult_nonpos_nonneg)
    then have "(a sdiv m) * m \<le> 0" by (simp only: e)
    then show ?thesis using le False by auto
  qed
qed

subsection \<open>Ring indices\<close>

lemma ring_shift_gen:
  fixes M :: nat
  assumes "wp < M" "1 \<le> d" "d < M"
  shows "((wp + 1) mod M + M - (d + 1)) mod M = (wp + M - d) mod M"
    and "(wp + M - d) mod M \<noteq> wp"
proof -
  show "((wp + 1) mod M + M - (d + 1)) mod M = (wp + M - d) mod M"
  proof (cases "wp + 1 < M")
    case True
    then have "(wp + 1) mod M = wp + 1" by simp
    moreover have "wp + 1 + M - (d + 1) = wp + M - d" by simp
    ultimately show ?thesis by simp
  next
    case False
    then have w: "wp + 1 = M" using assms(1) by simp
    then have l: "(wp + 1) mod M = 0" by simp
    have "wp + M - d = M + (M - (d + 1))" using w assms(3) by simp
    then have "(wp + M - d) mod M = (M - (d + 1)) mod M" by (simp only: mod_add_self1)
    then show ?thesis using l by simp
  qed
  show "(wp + M - d) mod M \<noteq> wp"
  proof (cases "d \<le> wp")
    case True
    then have "wp + M - d = M + (wp - d)" by simp
    then have "(wp + M - d) mod M = (wp - d) mod M" by (simp only: mod_add_self1)
    also have "\<dots> = wp - d" using assms(1) by simp
    finally show ?thesis using True assms(2) by simp
  next
    case False
    then have "wp + M - d < M" using assms(3) by simp
    then have "(wp + M - d) mod M = wp + M - d" by simp
    then show ?thesis using assms(3) by simp
  qed
qed

lemma ring_last_gen:
  fixes M :: nat
  assumes "wp < M"
  shows "((wp + 1) mod M + M - 1) mod M = wp"
    and "(wp + 1) mod M < M"
proof -
  show "((wp + 1) mod M + M - 1) mod M = wp"
  proof (cases "wp + 1 < M")
    case True
    then have "(wp + 1) mod M = wp + 1" by simp
    moreover have "wp + 1 + M - 1 = M + wp" by simp
    ultimately have "((wp + 1) mod M + M - 1) mod M = (M + wp) mod M" by simp
    then show ?thesis using assms by (simp only: mod_add_self1 mod_less)
  next
    case False
    then have "wp + 1 = M" using assms by simp
    then show ?thesis using assms by auto
  qed
  show "(wp + 1) mod M < M" using assms by simp
qed


subsection \<open>Oscillator shapes\<close>

lemma generateSawtooth_low:
  assumes "uint32_t ph < 2147483648"
  shows "- 16384 \<le> generateSawtooth ph \<and> generateSawtooth ph \<le> 16383"
proof -
  from assms have "uint32_t ph div 65536 < 32768" by simp
  then have b: "int (uint32_t ph div 65536) \<le> 32767" "0 \<le> int (uint32_t ph div 65536)"
    by simp_all
  then have "int16_t (int (uint32_t ph div 65536)) = int (uint32_t ph div 65536)"
    by (intro int16_t_id) simp_all
  with b show ?thesis unfolding generateSawtooth_def by (simp add: int16_t_id)
qed

lemma generateTriangle_low:
  assumes "uint32_t ph < 1073741824"
  shows "- 16384 \<le> generateTriangle ph \<and> generateTriangle ph \<le> 16383"
proof -
  from assms have q: "uint32_t ph div 1073741824 = 0" by simp
  from assms have "uint32_t ph div 32768 < 32768" by simp
  then have m: "(uint32_t ph div 32768) AND 65535 = uint32_t ph div 32768"
    "uint32_t ph div 32768 \<le> 32767"
    by (simp_all add: and_65535)
  then have "int16_t (int ((uint32_t ph div 32768) AND 65535)) = int (uint32_t ph div 32768)"
    by (simp add: int16_t_id)
  with q m(2) show ?thesis unfolding generateTriangle_def Let_def by (simp add: int16_t_id)
qed

lemma waveform_period:
  "generateSawtooth (ph + 4294967296) = generateSawtooth ph"
  "generateSquare (ph + 4294967296) = generateSquare ph"
  "generateTriangle (ph + 4294967296) = generateTriangle ph"
  by (simp_all add: generateSquare_def generateSawtooth_def generateTriangle_def uint32_t_def)

lemma generateTriangle_int16:
  "- 32768 \<le> generateTriangle ph \<and> generateTriangle ph \<le> 32767"
  unfolding generateTriangle_def Let_def using int16_t_range by simp

text \<open>
  Claim C1, as the code has it. The three oscillators return a signed 16-bit sample that
  depends on the phase modulo \<open>2^32\<close> only, so each has period \<open>2^32\<close>. The square
  wave is exactly \<open>16384\<close> or \<open>-16384\<close>. The sawtooth stays within
  \<open>[-16384, 16383]\<close> on the lower half of the phase range and the triangle on its first
  quarter; over the whole phase range only the 16-bit bounds \<open>[-32768, 32767]\<close> hold.
\<close>

theorem waveform_range_and_period:
  "(- 32768 \<le> generateSawtooth ph \<and> generateSawtooth ph \<le> 32767)
   \<and> (generateSquare ph = 16384 \<or> generateSquare ph = - 16384)
   \<and> (- 32768 \<le> generateTriangle ph \<and> generateTriangle ph \<le> 32767)
   \<and> (uint32_t ph < 2147483648 \<longrightarrow>
         - 16384 \<le> generateSawtooth ph \<and> generateSawtooth ph \<le> 16383)
   \<and> (uint32_t ph < 1073741824 \<longrightarrow>
         - 16384 \<le> generateTriangle ph \<and> generateTriangle ph \<le> 16383)
   \<and> generateSawtooth (ph + 4294967296) = generateSawtooth ph
   \<and> generateSquare (ph + 4294967296) = generateSquare ph
   \<and> generateTriangle (ph + 4294967296) = generateTriangle ph"
  using int16_t_range [of "int16_t (int (uint32_t ph div 65536)) - 16384"]
    generateTriangle_int16 [of ph] generateSawtooth_low [of ph] generateTriangle_low [of ph]
  by (simp add: waveform_period generateSawtooth_def [symmetric]) (simp add: generateSquare_def)

theorem waveform_range_and_period_witness:
  "uint32_t 1000000 < 2147483648 \<and> uint32_t 1000000 < 1073741824
   \<and> generateSawtooth 1000000 = - 16369 \<and> generateTriangle 1000000 = - 16354
   \<and> generateSquare 1000000 = - 16384"
  using waveform_range_and_period [of 1000000]
  by (simp add: generateSawtooth_def generateTriangle_def generateSquare_def uint32_t_def
      int16_t_def)

text \<open>
  The range \<open>[-16384, 16383]\<close> of claim C1 fails for each oscillator: the square wave
  returns \<open>16384\<close> at phase \<open>0x80000000\<close>, the sawtooth returns \<open>-32768\<close> at
  \<open>0xC0000000\<close>, and the triangle returns \<open>-32768\<close> at \<open>0x60000000\<close>.
\<close>

theorem waveform_range_counterexample:
  "generateSquare 2147483648 = 16384 \<and> generateSawtooth 3221225472 = - 32768
   \<and> generateTriangle 1610612736 = - 32768"
  by (simp add: generateSquare_def generateSawtooth_def generateTriangle_def uint32_t_def
      int16_t_def)

subsection \<open>Bit crusher\<close>

lemma bits_cases: "bits < 8 \<Longrightarrow> bits \<in> {0, 1, 2, 3, 4, 5, 6, 7::nat}"
  by auto

lemma crusher_step:
  assumes "bits < 8"
  shows "0 < (32768::int) div 2 ^ bits
       \<and> (sample sdiv int16_t (32768 div 2 ^ bits)) * int16_t (32768 div 2 ^ bits)
           = (sample sdiv (32768 div 2 ^ bits)) * (32768 div 2 ^ bits)"
  using bits_cases [OF assms] by (auto simp: int16_t_def)

lemma applyBitCrusher_eq:
  assumes "bits < 8" "- 32768 \<le> sample" "sample \<le> 32767"
  shows "applyBitCrusher sample bits = (sample sdiv (32768 div 2 ^ bits)) * (32768 div 2 ^ bits)"
proof -
  let ?m = "(32768::int) div 2 ^ bits"
  have m: "0 < ?m" using crusher_step [OF assms(1)] by simp
  have "- 32768 \<le> (sample sdiv ?m) * ?m \<and> (sample sdiv ?m) * ?m \<le> 32767"
    using sdiv_mult_between [OF m, of sample] assms(2,3) by (cases "0 \<le> sample") auto
  then have "int16_t ((sample sdiv ?m) * ?m) = (sample sdiv ?m) * ?m"
    by (intro int16_t_id) simp_all
  then show ?thesis
    using assms(1) crusher_step [OF assms(1), of sample]
    by (simp add: applyBitCrusher_def Let_def)
qed

lemma applyBitCrusher_range:
  assumes "- 32768 \<le> sample" "sample \<le> 32767"
  shows "- 32768 \<le> applyBitCrusher sample bits \<and> applyBitCrusher sample bits \<le> 32767"
proof (cases "bits < 8")
  case True
  then show ?thesis
    unfolding applyBitCrusher_def Let_def using int16_t_range by simp
next
  case False
  then show ?thesis using assms by (simp add: applyBitCrusher_def)
qed

text \<open>
  Claim C9. For a 16-bit sample, \<open>applyBitCrusher\<close> returns the sample unchanged when
  \<open>bits \<ge> 8\<close>; for \<open>bits < 8\<close> it returns \<open>(sample / step) * step\<close> with
  \<open>step = 32768 >> bits\<close> and truncating division, a multiple of \<open>step\<close> whose
  magnitude does not exceed that of the sample; and applying it twice with the same
  \<open>bits\<close> equals applying it once.
\<close>

theorem applyBitCrusher_quantises:
  assumes "- 32768 \<le> sample" "sample \<le> 32767"
  shows "(8 \<le> bits \<longrightarrow> applyBitCrusher sample bits = sample)
       \<and> (bits < 8 \<longrightarrow>
             applyBitCrusher sample bits
               = (sample sdiv (32768 div 2 ^ bits)) * (32768 div 2 ^ bits)
             \<and> (32768 div 2 ^ bits) dvd applyBitCrusher sample bits
             \<and> \<bar>applyBitCrusher sample bits\<bar> \<le> \<bar>sample\<bar>)
       \<and> applyBitCrusher (applyBitCrusher sample bits) bits = applyBitCrusher sample bits"
proof (cases "bits < 8")
  case False
  then show ?thesis by (simp add: applyBitCrusher_def)
next
  case True
  let ?m = "(32768::int) div 2 ^ bits"
  have m: "0 < ?m" using crusher_step [OF True] by simp
  have e: "applyBitCrusher sample bits = (sample sdiv ?m) * ?m"
    using True assms by (rule applyBitCrusher_eq)
  have r: "- 32768 \<le> applyBitCrusher sample bits" "applyBitCrusher sample bits \<le> 32767"
    using applyBitCrusher_range [OF assms] by simp_all
  have "applyBitCrusher (applyBitCrusher sample bits) bits
          = (applyBitCrusher sample bits sdiv ?m) * ?m"
    using True r by (rule applyBitCrusher_eq)
  also have "\<dots> = applyBitCrusher sample bits"
    using m by (simp add: e sdiv_times_pos)
  finally have idem: "applyBitCrusher (applyBitCrusher sample bits) bits
                        = applyBitCrusher sample bits" .
  have "\<bar>applyBitCrusher sample bits\<bar> \<le> \<bar>sample\<bar>"
    unfolding e using m by (rule sdiv_mult_le)
  moreover have "?m dvd applyBitCrusher sample bits" unfolding e by simp
  ultimately show ?thesis using True e idem by simp
qed

theorem applyBitCrusher_quantises_witness:
  "- 32768 \<le> (- 10000::int) \<and> (- 10000::int) \<le> 32767 \<and> (3::nat) < 8
   \<and> applyBitCrusher (- 10000) 3 = - 8192
   \<and> applyBitCrusher (- 8192) 3 = - 8192
   \<and> applyBitCrusher 12345 9 = 12345"
  using applyBitCrusher_quantises [of "- 10000" 3] applyBitCrusher_quantises [of 12345 9]
  by (auto simp: signed_divide_int_def)

subsection \<open>Lowpass filter on a constant input\<close>

lemma div_up:
  "0 \<le> d \<Longrightarrow> 0 < c \<Longrightarrow> c \<le> 4095 \<Longrightarrow> 0 \<le> (d * c) div 4096 \<and> (d * c) div 4096 \<le> (d::int)"
proof -
  assume a: "0 \<le> d" "0 < c" "c \<le> 4095"
  then have "d * c \<le> d * 4096" by (intro mult_left_mono) simp_all
  then have "(d * c) div 4096 \<le> (d * 4096) div 4096" by (rule zdiv_mono1) simp
  moreover have "0 \<le> (d * c) div 4096" using a by (simp add: pos_imp_zdiv_nonneg_iff)
  ultimately show ?thesis by simp
qed

lemma div_down:
  "d < 0 \<Longrightarrow> 0 < c \<Longrightarrow> c \<le> 4095 \<Longrightarrow> d \<le> (d * c) div 4096 \<and> (d * c) div 4096 \<le> (- 1::int)"
proof -
  assume a: "d < 0" "0 < c" "c \<le> 4095"
  then have "d * 4096 \<le> d * c" by (intro mult_left_mono_neg) simp_all
  then have "(d * 4096) div 4096 \<le> (d * c) div 4096" by (rule zdiv_mono1) simp
  moreover have "d * c < 0" using a by (simp add: mult_neg_pos)
  then have "(d * c) div 4096 < 0" by (simp add: neg_imp_zdiv_neg_iff)
  ultimately show ?thesis by simp
qed

lemma prod_bound:
  "\<bar>d\<bar> \<le> 65535 \<Longrightarrow> 0 < c \<Longrightarrow> c \<le> 4095 \<Longrightarrow> \<bar>d * c\<bar> \<le> (268365825::int)"
proof -
  assume a: "\<bar>d\<bar> \<le> 65535" "0 < c" "c \<le> 4095"
  have "\<bar>d * c\<bar> = \<bar>d\<bar> * c" using a by (simp add: abs_mult)
  also have "\<dots> \<le> 65535 * 4095" using a by (intro mult_mono) simp_all
  finally show ?thesis by simp
qed

text \<open>With 16-bit input and state, no intermediate result leaves the 32-bit range.\<close>

lemma filterUpdate_plain:
  assumes "0 < c" "c \<le> 4095" "- 32768 \<le> x" "x \<le> 32767" "- 32768 \<le> s" "s \<le> 32767"
  shows "filterUpdate c x s = s + ((x - s) * c) div 4096"
proof -
  have d: "\<bar>x - s\<bar> \<le> 65535" using assms by linarith
  then have 1: "int32_t (x - s) = x - s" by (intro int32_t_id) linarith+
  have p: "\<bar>(x - s) * c\<bar> \<le> 268365825" using d assms(1,2) by (rule prod_bound)
  then have 2: "int32_t ((x - s) * c) = (x - s) * c" by (intro int32_t_id) linarith+
  have "- 32768 \<le> s + ((x - s) * c) div 4096 \<and> s + ((x - s) * c) div 4096 \<le> 32767"
  proof (cases "s \<le> x")
    case True
    then show ?thesis using div_up [of "x - s" c] assms by simp
  next
    case False
    then show ?thesis using div_down [of "x - s" c] assms by simp
  qed
  then have 3: "int32_t (s + ((x - s) * c) div 4096) = s + ((x - s) * c) div 4096"
    by (intro int32_t_id) linarith+
  show ?thesis unfolding filterUpdate_def by (simp only: 1 2 3)
qed

lemma filterUpdate_stuck:
  assumes "0 < c" "c \<le> 4095" "- 32768 \<le> x" "x \<le> 32767" "- 32768 \<le> s" "s \<le> 32767"
    and "s \<le> x" "(x - s) * c < 4096"
  shows "filterUpdate c x s = s"
proof -
  have "0 \<le> (x - s) * c" using assms by simp
  then have "((x - s) * c) div 4096 = 0" using assms(8) by simp
  then show ?thesis using assms by (simp add: filterUpdate_plain)
qed

lemma filterRun_add: "filterRun c x s (n + k) = filterRun c x (filterRun c x s n) k"
  by (induction k) simp_all

lemma filterRun_below:
  assumes "0 < c" "c \<le> 4095" "- 32768 \<le> x" "x \<le> 32767" "- 32768 \<le> s" "s \<le> 32767"
    and "s \<le> x"
  shows "s \<le> filterRun c x s n \<and> filterRun c x s n \<le> filterRun c x s (Suc n)
       \<and> filterRun c x s (Suc n) \<le> x"
proof (induction n)
  case 0
  show ?case using assms div_up [of "x - s" c] by (simp add: filterUpdate_plain)
next
  case (Suc n)
  let ?t = "filterRun c x s (Suc n)"
  have r: "- 32768 \<le> ?t" "?t \<le> 32767" "?t \<le> x" "s \<le> ?t" using Suc assms by linarith+
  then have "filterUpdate c x ?t = ?t + ((x - ?t) * c) div 4096"
    using assms by (intro filterUpdate_plain) simp_all
  then show ?case using r div_up [of "x - ?t" c] assms(1,2) by simp
qed

lemma filterRun_above:
  assumes "0 < c" "c \<le> 4095" "- 32768 \<le> x" "x \<le> 32767" "- 32768 \<le> s" "s \<le> 32767"
    and "x \<le> s"
  shows "filterRun c x s n \<le> s \<and> filterRun c x s (Suc n) \<le> filterRun c x s n
       \<and> x \<le> filterRun c x s (Suc n)
       \<and> (filterRun c x s n \<noteq> x \<longrightarrow> filterRun c x s (Suc n) < filterRun c x s n)"
proof (induction n)
  case 0
  show ?case
  proof (cases "x = s")
    case True
    then show ?thesis using assms by (simp add: filterUpdate_plain)
  next
    case False
    then show ?thesis using assms div_down [of "x - s" c] by (simp add: filterUpdate_plain)
  qed
next
  case (Suc n)
  let ?t = "filterRun c x s (Suc n)"
  have r: "- 32768 \<le> ?t" "?t \<le> 32767" "x \<le> ?t" "?t \<le> s" using Suc assms by linarith+
  then have u: "filterUpdate c x ?t = ?t + ((x - ?t) * c) div 4096"
    using assms by (intro filterUpdate_plain) simp_all
  show ?case
  proof (cases "x = ?t")
    case True
    then show ?thesis using u r by simp
  next
    case False
    then show ?thesis using u r div_down [of "x - ?t" c] assms(1,2) by simp
  qed
qed

lemma filterRun_above_progress:
  assumes "0 < c" "c \<le> 4095" "- 32768 \<le> x" "x \<le> 32767" "- 32768 \<le> s" "s \<le> 32767"
    and "x \<le> s"
  shows "filterRun c x s n = x \<or> filterRun c x s n \<le> s - int n"
proof (induction n)
  case 0
  show ?case by simp
next
  case (Suc n)
  from filterRun_above [OF assms, of n] Suc show ?case by (cases "filterRun c x s n = x") auto
qed

lemma filterRun_reaches_from_above:
  assumes "0 < c" "c \<le> 4095" "- 32768 \<le> x" "x \<le> 32767" "- 32768 \<le> s" "s \<le> 32767"
    and "x \<le> s" "nat (s - x) \<le> k"
  shows "filterRun c x s k = x"
proof -
  have "x \<le> filterRun c x s k"
    using filterRun_above [OF assms(1-7), of "k - 1"] assms(7) by (cases k) simp_all
  moreover have "filterRun c x s k = x \<or> filterRun c x s k \<le> s - int k"
    by (rule filterRun_above_progress [OF assms(1-7)])
  ultimately show ?thesis using assms(8) by linarith
qed

lemma filterRun_below_progress:
  assumes "0 < c" "c \<le> 4095" "- 32768 \<le> x" "x \<le> 32767" "- 32768 \<le> s" "s \<le> 32767"
    and "s \<le> x"
  shows "(x - filterRun c x s n) * c < 4096 \<or> s + int n \<le> filterRun c x s n"
proof (induction n)
  case 0
  show ?case by simp
next
  case (Suc n)
  let ?t = "filterRun c x s n"
  have b: "s \<le> ?t" "?t \<le> filterRun c x s (Suc n)" "filterRun c x s (Suc n) \<le> x"
    using filterRun_below [OF assms, of n] by simp_all
  then have r: "- 32768 \<le> ?t" "?t \<le> 32767" "?t \<le> x" using assms by linarith+
  show ?case
  proof (cases "(x - ?t) * c < 4096")
    case True
    then have "filterUpdate c x ?t = ?t"
      using assms r by (intro filterUpdate_stuck) simp_all
    then show ?thesis using True by simp
  next
    case False
    then have "1 \<le> ((x - ?t) * c) div 4096" by simp
    moreover have "filterUpdate c x ?t = ?t + ((x - ?t) * c) div 4096"
      using assms r by (intro filterUpdate_plain) simp_all
    ultimately show ?thesis using Suc False by simp
  qed
qed

lemma filterRun_settles_from_below:
  assumes "0 < c" "c \<le> 4095" "- 32768 \<le> x" "x \<le> 32767" "- 32768 \<le> s" "s \<le> 32767"
    and "s \<le> x" "nat (x - s) \<le> k"
  shows "filterRun c x s k = filterRun c x s (nat (x - s))
       \<and> (x - filterRun c x s k) * c < 4096"
proof -
  let ?N = "nat (x - s)"
  let ?t = "filterRun c x s ?N"
  have b: "s \<le> ?t" "?t \<le> x"
    using filterRun_below [OF assms(1-7), of ?N] by linarith+
  have small: "(x - ?t) * c < 4096"
  proof -
    have "(x - ?t) * c < 4096 \<or> s + int ?N \<le> ?t"
      by (rule filterRun_below_progress [OF assms(1-7)])
    then show ?thesis
    proof
      assume "s + int ?N \<le> ?t"
      then have "?t = x" using b assms(7) by simp
      then show ?thesis by simp
    qed simp
  qed
  have stuck: "filterUpdate c x ?t = ?t"
    using assms(1-4) b assms(5,6) small by (intro filterUpdate_stuck) linarith+
  have stay: "filterRun c x ?t j = ?t" for j
    by (induction j) (simp_all add: stuck)
  obtain j where "k = ?N + j" using assms(8) by (metis le_Suc_ex)
  then have "filterRun c x s k = ?t" by (simp add: filterRun_add stay)
  then show ?thesis using small by simp
qed

text \<open>
  Claim C3, as the code has it. For a cutoff in \<open>(0, 4095]\<close>, a constant 16-bit input
  \<open>x\<close> and a 16-bit initial state, the state sequence is monotone and never passes
  \<open>x\<close>: non-decreasing when it starts below \<open>x\<close>, non-increasing when it starts above.
  Starting above, it reaches \<open>x\<close> exactly after at most \<open>s - x\<close> ticks. Starting
  below, it is stationary after at most \<open>x - s\<close> ticks at a value \<open>t \<le> x\<close> with
  \<open>(x - t) * cutoff < 4096\<close>, which need not be \<open>x\<close>: the shift truncates.
\<close>

theorem lowpass_constant_input:
  assumes "0 < c" "c \<le> 4095" "- 32768 \<le> x" "x \<le> 32767" "- 32768 \<le> s" "s \<le> 32767"
  shows "(s \<le> x \<longrightarrow>
            filterRun c x s n \<le> filterRun c x s (Suc n) \<and> filterRun c x s (Suc n) \<le> x)
       \<and> (x \<le> s \<longrightarrow>
            x \<le> filterRun c x s (Suc n) \<and> filterRun c x s (Suc n) \<le> filterRun c x s n)
       \<and> (x \<le> s \<and> nat (s - x) \<le> k \<longrightarrow> filterRun c x s k = x)
       \<and> (s \<le> x \<and> nat (x - s) \<le> k \<longrightarrow>
            filterRun c x s k = filterRun c x s (nat (x - s))
            \<and> (x - filterRun c x s k) * c < 4096)"
  using filterRun_below [OF assms, of n] filterRun_above [OF assms, of n]
    filterRun_reaches_from_above [OF assms, of k] filterRun_settles_from_below [OF assms, of k]
  by blast

theorem lowpass_constant_input_witness:
  "(0::int) < 2048 \<and> (2048::int) \<le> 4095 \<and> - 32768 \<le> (0::int) \<and> (0::int) \<le> 32767
   \<and> - 32768 \<le> (5::int) \<and> (5::int) \<le> 32767 \<and> (0::int) \<le> 5 \<and> nat (5 - 0) \<le> 5
   \<and> filterRun 2048 0 5 2 \<le> filterRun 2048 0 5 1
   \<and> filterRun 2048 0 5 5 = 0
   \<and> filterRun 2048 5 0 3 = 4 \<and> filterRun 2048 5 0 5 = 4"
  using lowpass_constant_input [of 2048 0 5 1 5] lowpass_constant_input [of 2048 5 0 1 5]
  by (simp add: eval_nat_numeral filterUpdate_def int32_t_def)

text \<open>
  Convergence to the input, as claim C3 states it, fails: with cutoff \<open>4095\<close>, input
  \<open>1\<close> and state \<open>0\<close> the update leaves the state at \<open>0\<close>, so the state never moves
  and never reaches the input.
\<close>

theorem lowpass_convergence_counterexample:
  "filterUpdate 4095 1 0 = 0 \<and> filterRun 4095 1 0 1000 = 0 \<and> filterRun 4095 1 0 1000 \<noteq> 1"
proof -
  have u: "filterUpdate 4095 1 0 = 0" by (simp add: filterUpdate_def int32_t_def)
  have "filterRun 4095 1 0 n = 0" for n by (induction n) (simp_all add: u)
  then show ?thesis using u by simp
qed

subsection \<open>Echo line with zero feedback\<close>

lemma truncf_of_int [simp]: "truncf (of_int k) = k"
  by (simp add: truncf_def)

lemma smod_nonneg: "0 \<le> a \<Longrightarrow> 0 < b \<Longrightarrow> a smod b = a mod (b::int)"
  by (cases "a = 0") (simp_all add: signed_modulo_int_def)

lemma truncf_zero [simp]: "truncf 0 = 0"
  by (simp add: truncf_def)

lemma echo_readPos:
  assumes "wp < MAX_DELAY_SAMPLES" "et \<le> MAX_DELAY_SAMPLES"
  shows "uint16_t ((int wp + int MAX_DELAY_SAMPLES - int et) smod int MAX_DELAY_SAMPLES)
           = (wp + MAX_DELAY_SAMPLES - et) mod MAX_DELAY_SAMPLES"
proof -
  let ?a = "int wp + int MAX_DELAY_SAMPLES - int et"
  have a: "0 \<le> ?a" using assms by simp
  have m: "(0::int) < int MAX_DELAY_SAMPLES" by (simp add: MAX_DELAY_SAMPLES_def)
  have n: "?a = int (wp + MAX_DELAY_SAMPLES - et)" using assms by simp
  have "?a smod int MAX_DELAY_SAMPLES = ?a mod int MAX_DELAY_SAMPLES"
    using a m by (rule smod_nonneg)
  then have e: "?a smod int MAX_DELAY_SAMPLES
                  = int ((wp + MAX_DELAY_SAMPLES - et) mod MAX_DELAY_SAMPLES)"
    by (simp only: n zmod_int)
  have "(wp + MAX_DELAY_SAMPLES - et) mod MAX_DELAY_SAMPLES < 65536"
    using mod_less_divisor [of MAX_DELAY_SAMPLES "wp + MAX_DELAY_SAMPLES - et"]
    by (simp add: MAX_DELAY_SAMPLES_def)
  then show ?thesis unfolding e uint16_t_def by simp
qed

lemma reverseTap_line:
  "echoBuffer (fst (reverseTap p s d)) = echoBuffer s
   \<and> echoWritePos (fst (reverseTap p s d)) = echoWritePos s"
  by (simp add: reverseTap_def Let_def split: prod.splits)

lemma echoStep_feedback_zero:
  assumes "delayIndex p > 0" "echoFeedback p = 0" "echoTime p \<le> MAX_DELAY_SAMPLES"
    and "echoWritePos s < MAX_DELAY_SAMPLES" "- 32768 \<le> x" "x \<le> 32767"
  shows "echoBuffer (fst (echoStep p s x)) = (echoBuffer s)(echoWritePos s := noiseGate x)"
    and "echoWritePos (fst (echoStep p s x)) = (echoWritePos s + 1) mod MAX_DELAY_SAMPLES"
    and "fst (snd (echoStep p s x))
           = echoBuffer s ((echoWritePos s + MAX_DELAY_SAMPLES - echoTime p) mod MAX_DELAY_SAMPLES)"
proof -
  have i: "int32_t x = x" "int32_t 0 = 0" "int16_t x = x" "int16_t 0 = 0"
    using assms(5,6) by (simp_all add: int32_t_id int16_t_id)
  show "echoBuffer (fst (echoStep p s x)) = (echoBuffer s)(echoWritePos s := noiseGate x)"
    using assms reverseTap_line [of p s]
    by (cases "\<bar>x\<bar> < 50")
       (simp_all add: echoStep_def Let_def echo_readPos noiseGate_def i case_prod_beta)
  show "echoWritePos (fst (echoStep p s x)) = (echoWritePos s + 1) mod MAX_DELAY_SAMPLES"
    using assms reverseTap_line [of p s]
    by (simp add: echoStep_def Let_def case_prod_beta)
  show "fst (snd (echoStep p s x))
           = echoBuffer s ((echoWritePos s + MAX_DELAY_SAMPLES - echoTime p) mod MAX_DELAY_SAMPLES)"
    using assms by (simp add: echoStep_def Let_def echo_readPos case_prod_beta)
qed


lemmas ring_shift = ring_shift_gen [where M = MAX_DELAY_SAMPLES]
lemmas ring_last = ring_last_gen [where M = MAX_DELAY_SAMPLES]

lemma echoReads_held:
  assumes "delayIndex p > 0" "echoFeedback p = 0" "echoTime p \<le> MAX_DELAY_SAMPLES"
  shows "echoWritePos s < MAX_DELAY_SAMPLES \<Longrightarrow> 1 \<le> d \<Longrightarrow> d \<le> echoTime p
     \<Longrightarrow> echoBuffer s ((echoWritePos s + MAX_DELAY_SAMPLES - d) mod MAX_DELAY_SAMPLES) = v
     \<Longrightarrow> echoTime p - d < length xs
     \<Longrightarrow> \<forall>x \<in> set xs. - 32768 \<le> x \<and> x \<le> 32767
     \<Longrightarrow> echoReads p s xs ! (echoTime p - d) = v"
proof (induction xs arbitrary: s d)
  case Nil
  then show ?case by simp
next
  case (Cons x xs)
  have x: "- 32768 \<le> x" "x \<le> 32767" using Cons.prems(6) by simp_all
  note st = echoStep_feedback_zero [OF assms Cons.prems(1) x]
  show ?case
  proof (cases "d = echoTime p")
    case True
    then show ?thesis using Cons.prems(4) st(3) by simp
  next
    case False
    then have lt: "d < echoTime p" using Cons.prems(3) by simp
    then have dm: "d < MAX_DELAY_SAMPLES" using assms(3) by simp
    let ?s = "fst (echoStep p s x)"
    have w: "echoWritePos ?s < MAX_DELAY_SAMPLES"
      using st(2) ring_last(2) [OF Cons.prems(1)] by simp
    have held: "echoBuffer ?s ((echoWritePos ?s + MAX_DELAY_SAMPLES - (d + 1)) mod MAX_DELAY_SAMPLES) = v"
      using ring_shift [OF Cons.prems(1,2) dm] Cons.prems(4) by (simp add: st(1,2))
    have "echoReads p ?s xs ! (echoTime p - (d + 1)) = v"
      using w _ _ held
    proof (rule Cons.IH)
      show "1 \<le> d + 1" by simp
      show "d + 1 \<le> echoTime p" using lt by simp
      show "echoTime p - (d + 1) < length xs" using Cons.prems(5) lt by simp
      show "\<forall>x \<in> set xs. - 32768 \<le> x \<and> x \<le> 32767" using Cons.prems(6) by simp
    qed
    moreover have "echoTime p - d = Suc (echoTime p - (d + 1))" using lt by simp
    ultimately show ?thesis by simp
  qed
qed

lemma echoReads_delay:
  assumes "delayIndex p > 0" "echoFeedback p = 0" "0 < echoTime p"
    "echoTime p \<le> MAX_DELAY_SAMPLES"
  shows "echoWritePos s < MAX_DELAY_SAMPLES \<Longrightarrow> n + echoTime p < length xs
     \<Longrightarrow> \<forall>x \<in> set xs. - 32768 \<le> x \<and> x \<le> 32767
     \<Longrightarrow> echoReads p s xs ! (n + echoTime p) = noiseGate (xs ! n)"
proof (induction n arbitrary: s xs)
  case 0
  then obtain x ys where xs: "xs = x # ys" by (cases xs) simp_all
  have x: "- 32768 \<le> x" "x \<le> 32767" using 0(3) xs by simp_all
  note st = echoStep_feedback_zero [OF assms(1,2,4) 0(1) x]
  let ?s = "fst (echoStep p s x)"
  have w: "echoWritePos ?s < MAX_DELAY_SAMPLES"
    using st(2) ring_last(2) [OF 0(1)] by simp
  have held: "echoBuffer ?s ((echoWritePos ?s + MAX_DELAY_SAMPLES - 1) mod MAX_DELAY_SAMPLES)
                = noiseGate x"
    using ring_last(1) [OF 0(1)] by (simp add: st(1,2))
  have "echoReads p ?s ys ! (echoTime p - 1) = noiseGate x"
    using assms(1,2,4) w _ _ held
  proof (rule echoReads_held)
    show "(1::nat) \<le> 1" by simp
    show "1 \<le> echoTime p" using assms(3) by simp
    show "echoTime p - 1 < length ys" using 0(2) xs assms(3) by simp
    show "\<forall>x \<in> set ys. - 32768 \<le> x \<and> x \<le> 32767" using 0(3) xs by simp
  qed
  moreover have "echoTime p = Suc (echoTime p - 1)" using assms(3) by simp
  ultimately show ?case using xs by (metis add_0 nth_Cons_0 nth_Cons_Suc echoReads.simps(2))
next
  case (Suc n)
  then obtain x ys where xs: "xs = x # ys" by (cases xs) simp_all
  have x: "- 32768 \<le> x" "x \<le> 32767" using Suc.prems(3) xs by simp_all
  note st = echoStep_feedback_zero [OF assms(1,2,4) Suc.prems(1) x]
  let ?s = "fst (echoStep p s x)"
  have w: "echoWritePos ?s < MAX_DELAY_SAMPLES"
    using st(2) ring_last(2) [OF Suc.prems(1)] by simp
  have "echoReads p ?s ys ! (n + echoTime p) = noiseGate (ys ! n)"
    using w
  proof (rule Suc.IH)
    show "n + echoTime p < length ys" using Suc.prems(2) xs by simp
    show "\<forall>x \<in> set ys. - 32768 \<le> x \<and> x \<le> 32767" using Suc.prems(3) xs by simp
  qed
  then show ?case using xs by simp
qed

text \<open>
  Claim C2, as the code has it. With the delay enabled (\<open>delayIndex > 0\<close>), feedback
  \<open>0\<close> and a delay offset \<open>echoTime\<close> between 1 and the capacity of the line, for
  every sequence of 16-bit dry samples the sample read from the echo line at tick
  \<open>n + echoTime\<close> is the dry sample of tick \<open>n\<close> when its magnitude is at least 50,
  and \<open>0\<close> when it is below 50: the noise gate of the feedback write drops quiet
  samples.
\<close>

theorem echo_zero_feedback_delay:
  assumes "delayIndex p > 0" "echoFeedback p = 0" "0 < echoTime p"
    "echoTime p \<le> MAX_DELAY_SAMPLES" "echoWritePos s < MAX_DELAY_SAMPLES"
    "n + echoTime p < length xs" "\<forall>x \<in> set xs. - 32768 \<le> x \<and> x \<le> 32767"
  shows "echoReads p s xs ! (n + echoTime p) = (if \<bar>xs ! n\<bar> < 50 then 0 else xs ! n)"
  using echoReads_delay [OF assms] by (simp add: noiseGate_def)

theorem echo_zero_feedback_delay_witness:
  "echoReads
     \<lparr>delayIndex = 1, echoTime = 1103, echoFeedback = 0, reverserActive = False,
      reversing = False, mixAmount = 1, pitchShift = - 1\<rparr>
     \<lparr>echoBuffer = (\<lambda>i. 0), echoWritePos = 0, pitchCounter = 0, lastPitchSample = 0\<rparr>
     (1000 # replicate 1103 0) ! 1103 = 1000"
proof -
  let ?p = "\<lparr>delayIndex = 1, echoTime = 1103, echoFeedback = 0, reverserActive = False,
      reversing = False, mixAmount = 1, pitchShift = - 1\<rparr>"
  let ?s = "\<lparr>echoBuffer = (\<lambda>i. 0::int), echoWritePos = 0, pitchCounter = 0,
      lastPitchSample = 0\<rparr>"
  let ?xs = "1000 # replicate 1103 (0::int)"
  have "echoReads ?p ?s ?xs ! (0 + echoTime ?p) = (if \<bar>?xs ! 0\<bar> < 50 then 0 else ?xs ! 0)"
    by (rule echo_zero_feedback_delay) (simp_all add: MAX_DELAY_SAMPLES_def)
  then show ?thesis by simp
qed

text \<open>
  The exact delay of claim C2 fails for a quiet sample. Delay index 1 (offset 1103),
  feedback 0, an empty line: the dry sample 10 of tick 0 is below the noise-gate
  threshold, the feedback write stores \<open>0\<close>, and the sample read at tick 1103 is \<open>0\<close>,
  not 10.
\<close>

theorem echo_zero_feedback_counterexample:
  "echoReads
     \<lparr>delayIndex = 1, echoTime = 1103, echoFeedback = 0, reverserActive = False,
      reversing = False, mixAmount = 1, pitchShift = - 1\<rparr>
     \<lparr>echoBuffer = (\<lambda>i. 0), echoWritePos = 0, pitchCounter = 0, lastPitchSample = 0\<rparr>
     (10 # replicate 1103 0) ! (0 + 1103) = 0
   \<and> (10 # replicate 1103 (0::int)) ! 0 = 10"
proof -
  let ?p = "\<lparr>delayIndex = 1, echoTime = 1103, echoFeedback = 0, reverserActive = False,
      reversing = False, mixAmount = 1, pitchShift = - 1\<rparr>"
  let ?s = "\<lparr>echoBuffer = (\<lambda>i. 0::int), echoWritePos = 0, pitchCounter = 0,
      lastPitchSample = 0\<rparr>"
  let ?xs = "10 # replicate 1103 (0::int)"
  have "echoReads ?p ?s ?xs ! (0 + echoTime ?p) = noiseGate (?xs ! 0)"
    by (rule echoReads_delay) (simp_all add: MAX_DELAY_SAMPLES_def)
  then show ?thesis by (simp add: noiseGate_def)
qed

subsection \<open>Pitch quantisation\<close>

lemma uint8_t_nat: "n < 256 \<Longrightarrow> uint8_t (int n) = n"
  by (simp add: uint8_t_def)

lemma selectScale_shape:
  "sorted (selectScale cs) \<and> length (selectScale cs) = selectScaleSize cs
   \<and> 0 < selectScaleSize cs"
  by (simp add: selectScale_def selectScaleSize_def minorPentatonic_def minorPentatonicSize_def
      majorScale_def majorScaleSize_def bluesScale_def bluesScaleSize_def minorScale_def
      minorScaleSize_def chromaticScale_def chromaticScaleSize_def)


lemma selectScaleSize_range: "6 \<le> selectScaleSize cs \<and> selectScaleSize cs \<le> 13"
  by (simp add: selectScaleSize_def minorPentatonicSize_def majorScaleSize_def
      bluesScaleSize_def minorScaleSize_def chromaticScaleSize_def)

lemma shl1_small: "n \<le> 30 \<Longrightarrow> shl1 n = Some (2 ^ n)"
  by (simp add: shl1_def)

lemma quantizePitchToScale_low:
  assumes "s < 256" "s div selectScaleSize cs \<le> 30"
  shows "quantizePitchToScale cs b s
           = Some (110 * 2 ^ (s div selectScaleSize cs) * selectScale cs ! (s mod selectScaleSize cs))"
  using assms by (simp add: quantizePitchToScale_def Let_def shl1_small uint8_t_nat)







subsection \<open>Random walk on the pitch step\<close>

lemma generateMelody_keeps [simp]:
  "mutate (generateMelody tm st) = mutate st"
  "octaveShift (generateMelody tm st) = octaveShift st"
  by (simp_all add: generateMelody_def Let_def)

lemma applyPitchFrequency_mutate:
  "applyPitchFrequency tm st = Some st' \<Longrightarrow> mutate st' = mutate st"
  by (auto simp: applyPitchFrequency_def Let_def case_prod_beta split: option.splits if_splits)

lemma shl1_defined: "n \<le> 31 \<Longrightarrow> \<exists>k. shl1 n = Some k"
  by (simp add: shl1_def)

lemma quantizePitchToScale_note:
  "\<exists>f. quantizePitchToScale cs b (s mod selectScaleSize cs) = Some f"
proof -
  have p: "0 < selectScaleSize cs" "selectScaleSize cs \<le> 13"
    using selectScale_shape selectScaleSize_range by simp_all
  then have "s mod selectScaleSize cs < selectScaleSize cs" by simp
  then have "s mod selectScaleSize cs < 256" using p(2) by simp
  moreover have "(s mod selectScaleSize cs) div selectScaleSize cs \<le> 30" using p(1) by simp
  ultimately show ?thesis using quantizePitchToScale_low by blast
qed

lemma applyPitchFrequency_defined:
  assumes "pitchStep (mutate st) div selectScaleSize (currentScale (mutate st)) \<le> 31"
    and "- 31 \<le> octaveShift st" "octaveShift st \<le> 31"
  shows "\<exists>st'. applyPitchFrequency tm st = Some st'"
proof -
  obtain k where k: "shl1 (pitchStep (mutate st) div selectScaleSize (currentScale (mutate st))) = Some k"
    using shl1_defined [OF assms(1)] by blast
  obtain f where f: "quantizePitchToScale (currentScale (mutate st)) (100 * of_int k)
      (pitchStep (mutate st) mod selectScaleSize (currentScale (mutate st))) = Some f"
    using quantizePitchToScale_note by blast
  have "nat (octaveShift st) \<le> 31" using assms(3) by simp
  then obtain k1 where k1: "shl1 (nat (octaveShift st)) = Some k1"
    using shl1_defined by blast
  have "nat (- octaveShift st) \<le> 31" using assms(2) by simp
  then obtain k2 where k2: "shl1 (nat (- octaveShift st)) = Some k2"
    using shl1_defined by blast
  show ?thesis
    by (simp add: applyPitchFrequency_def Let_def k f k1 k2 case_prod_beta)
qed

lemma uint8_t_id: "0 \<le> v \<Longrightarrow> v < 256 \<Longrightarrow> uint8_t v = nat v"
  by (simp add: uint8_t_def)

lemma mutatedPitchStep_eq:
  "mutatedPitchStep d m
     = nat (max 0 (min (int (selectScaleSize (currentScale m)) * 4 - 1)
                       (int (pitchStep m) + pitchChange d (selectScaleSize (currentScale m)))))"
proof -
  let ?n = "selectScaleSize (currentScale m)"
  let ?v = "max 0 (min (int ?n * 4 - 1) (int (pitchStep m) + pitchChange d ?n))"
  have n: "0 < ?n" "?n \<le> 13" using selectScale_shape selectScaleSize_range by simp_all
  have r: "0 \<le> ?v" "?v < 256" using n by simp_all
  have "(let newStep = int (pitchStep m) + pitchChange d ?n;
             newStep = (if newStep < 0 then 0 else newStep);
             newStep = (if newStep \<ge> int ?n * 4 then int ?n * 4 - 1 else newStep)
         in newStep) = ?v"
    using n by (auto simp: Let_def max_def min_def)
  then have "mutatedPitchStep d m = uint8_t ?v"
    by (simp add: mutatedPitchStep_def Let_def)
  then show ?thesis using r by (simp only: uint8_t_id)
qed

lemma mutatedPitchStep_bound:
  "mutatedPitchStep d m < selectScaleSize (currentScale m) * 4"
proof -
  have "0 < selectScaleSize (currentScale m)" using selectScale_shape by simp
  then show ?thesis unfolding mutatedPitchStep_eq by simp
qed

lemma pitchChange_tiers:
  assumes "random100 d < 100"
  shows "pitchChange d n =
     (if random100 d < 10 then (if random2 d = 0 then int n else - int n)
      else if random100 d < 40 then (if random2 d = 0 then 2 else - 2)
      else (if random2 d = 0 then 1 else - 1))"
  using assms by (simp add: pitchChange_def Let_def uint8_t_def)

lemma mutatePitch_walk:
  assumes "drawsInRange d" "- 31 \<le> octaveShift st" "octaveShift st \<le> 31"
  shows "\<exists>st'. mutatePitch d tm st = Some st'
     \<and> pitchStep (mutate st')
         = nat (max 0 (min (int (selectScaleSize (currentScale (mutate st))) * 4 - 1)
             (int (pitchStep (mutate st))
              + (if random100 d < 10
                 then (if random2 d = 0 then int (selectScaleSize (currentScale (mutate st)))
                       else - int (selectScaleSize (currentScale (mutate st))))
                 else if random100 d < 40 then (if random2 d = 0 then 2 else - 2)
                 else (if random2 d = 0 then 1 else - 1)))))
     \<and> pitchStep (mutate st') < selectScaleSize (currentScale (mutate st)) * 4
     \<and> currentScale (mutate st') = currentScale (mutate st)"
proof -
  let ?m = "(mutate st)\<lparr>pitchStep := mutatedPitchStep d (mutate st)\<rparr>"
  let ?st1 = "st\<lparr>mutate := ?m\<rparr>"
  let ?n = "selectScaleSize (currentScale (mutate st))"
  have b: "mutatedPitchStep d (mutate st) < ?n * 4" by (rule mutatedPitchStep_bound)
  then have "mutatedPitchStep d (mutate st) div ?n < 4"
    by (simp add: less_mult_imp_div_less mult.commute)
  then have "pitchStep (mutate ?st1) div selectScaleSize (currentScale (mutate ?st1)) \<le> 31"
    by simp
  moreover have "- 31 \<le> octaveShift ?st1" "octaveShift ?st1 \<le> 31" using assms(2,3) by simp_all
  ultimately obtain st' where s: "applyPitchFrequency tm ?st1 = Some st'"
    using applyPitchFrequency_defined by blast
  then have m: "mutate st' = ?m" using applyPitchFrequency_mutate [OF s] by simp
  have r: "random100 d < 100" using assms(1) by (simp add: drawsInRange_def)
  have "mutatePitch d tm st = Some st'" using s by (simp add: mutatePitch_def)
  moreover have "pitchStep (mutate st') = mutatedPitchStep d (mutate st)" using m by simp
  moreover have "currentScale (mutate st') = currentScale (mutate st)" using m by simp
  ultimately show ?thesis
    using b by (simp add: mutatedPitchStep_eq pitchChange_tiers [OF r])
qed



subsection \<open>Rate limit of the mutation trigger\<close>

lemma mutateSpeed_time [simp]:
  "lastMutateTime (mutate (mutateSpeed d s)) = lastMutateTime (mutate s)"
  "fullyDisabled (mutate (mutateSpeed d s)) = fullyDisabled (mutate s)"
  by (simp_all add: mutateSpeed_def Let_def)

lemma mutateModulation_mutate [simp]: "mutate (mutateModulation d s) = mutate s"
  by (simp add: mutateModulation_def Let_def)

lemma mutatePitch_time:
  assumes "mutatePitch d tm st = Some st'"
  shows "lastMutateTime (mutate st') = lastMutateTime (mutate st)"
    and "fullyDisabled (mutate st') = fullyDisabled (mutate st)"
  using applyPitchFrequency_mutate [OF assms [unfolded mutatePitch_def]] by simp_all

lemma triggerMutation_suppressed:
  "fullyDisabled (mutate st) \<or> usub32 now (lastMutateTime (mutate st)) < 100
     \<Longrightarrow> triggerMutation d now tm st = Some st"
  by (auto simp: triggerMutation_def)

lemma triggerMutation_accepted_time:
  assumes "\<not> fullyDisabled (mutate st)" "100 \<le> usub32 now (lastMutateTime (mutate st))"
    and "triggerMutation d now tm st = Some st'"
  shows "lastMutateTime (mutate st') = uint32_t now"
proof -
  define st1 where "st1 = st\<lparr>mutate := (mutate st)\<lparr>lastMutateTime := uint32_t now\<rparr>\<rparr>"
  define st2 where "st2 = (if mutateMode (mutate st1) \<noteq> MUTATE_OFF
               then st1\<lparr>lastActiveMutateMode := mutateMode (mutate st1)\<rparr> else st1)"
  have t2: "lastMutateTime (mutate st2) = uint32_t now" by (simp add: st2_def st1_def)
  have e: "triggerMutation d now tm st =
      (if lastActiveMutateMode st2 = MUTATE_AMOUNT then mutatePitch d tm st2
       else if lastActiveMutateMode st2 = MUTATE_RHYTHM then
         map_option (mutateSpeed d) (mutatePitch d tm st2)
       else if lastActiveMutateMode st2 = MUTATE_CUTOFF then
         map_option (\<lambda>s. mutateModulation d (mutateSpeed d s)) (mutatePitch d tm st2)
       else Some st2)"
    using assms(1,2) by (simp add: triggerMutation_def Let_def st2_def st1_def)
  consider (a) "lastActiveMutateMode st2 = MUTATE_AMOUNT"
    | (b) "lastActiveMutateMode st2 \<noteq> MUTATE_AMOUNT" "lastActiveMutateMode st2 = MUTATE_RHYTHM"
    | (c) "lastActiveMutateMode st2 \<noteq> MUTATE_AMOUNT" "lastActiveMutateMode st2 \<noteq> MUTATE_RHYTHM"
          "lastActiveMutateMode st2 = MUTATE_CUTOFF"
    | (z) "lastActiveMutateMode st2 \<noteq> MUTATE_AMOUNT" "lastActiveMutateMode st2 \<noteq> MUTATE_RHYTHM"
          "lastActiveMutateMode st2 \<noteq> MUTATE_CUTOFF"
    by blast
  then show ?thesis
  proof cases
    case a
    then have "mutatePitch d tm st2 = Some st'" using e assms(3) by simp
    from mutatePitch_time(1) [OF this] t2 show ?thesis by simp
  next
    case b
    then have "map_option (mutateSpeed d) (mutatePitch d tm st2) = Some st'"
      using e assms(3) by simp
    then obtain u where u: "mutatePitch d tm st2 = Some u" "st' = mutateSpeed d u" by auto
    from mutatePitch_time(1) [OF u(1)] t2 u(2) show ?thesis by simp
  next
    case c
    then have "map_option (\<lambda>s. mutateModulation d (mutateSpeed d s)) (mutatePitch d tm st2)
                 = Some st'"
      using e assms(3) by simp
    then obtain u where u: "mutatePitch d tm st2 = Some u"
      "st' = mutateModulation d (mutateSpeed d u)" by auto
    from mutatePitch_time(1) [OF u(1)] t2 u(2) show ?thesis by simp
  next
    case z
    then have "Some st2 = Some st'" using \<open>triggerMutation d now tm st = (if _ then _ else _)\<close> assms(3)
      by simp
    then show ?thesis using t2 by auto
  qed
qed

lemma triggerMutation_defined:
  assumes "drawsInRange d" "- 31 \<le> octaveShift st" "octaveShift st \<le> 31"
  shows "\<exists>st'. triggerMutation d now tm st = Some st'"
proof (cases "fullyDisabled (mutate st) \<or> usub32 now (lastMutateTime (mutate st)) < 100")
  case True
  then show ?thesis using triggerMutation_suppressed by blast
next
  case False
  define st1 where "st1 = st\<lparr>mutate := (mutate st)\<lparr>lastMutateTime := uint32_t now\<rparr>\<rparr>"
  define st2 where "st2 = (if mutateMode (mutate st1) \<noteq> MUTATE_OFF
               then st1\<lparr>lastActiveMutateMode := mutateMode (mutate st1)\<rparr> else st1)"
  have "octaveShift st2 = octaveShift st" by (simp add: st2_def st1_def)
  then obtain u where u: "mutatePitch d tm st2 = Some u"
    using mutatePitch_walk [OF assms(1), of st2 tm] assms(2,3) by auto
  have "triggerMutation d now tm st =
      (if lastActiveMutateMode st2 = MUTATE_AMOUNT then mutatePitch d tm st2
       else if lastActiveMutateMode st2 = MUTATE_RHYTHM then
         map_option (mutateSpeed d) (mutatePitch d tm st2)
       else if lastActiveMutateMode st2 = MUTATE_CUTOFF then
         map_option (\<lambda>s. mutateModulation d (mutateSpeed d s)) (mutatePitch d tm st2)
       else Some st2)"
    using False by (simp add: triggerMutation_def Let_def st2_def st1_def)
  then show ?thesis using u by simp
qed

text \<open>
  Claim C10. A call of \<open>triggerMutation\<close> while mutations are fully disabled, or less
  than 100 ms (by the wrapping millisecond clock) after the last accepted call, returns
  with the whole state unchanged. An accepted call records its time, so every call less
  than 100 ms after it is suppressed: two mutations never take effect less than 100 ms
  apart.
\<close>

theorem triggerMutation_rate_limit:
  "(fullyDisabled (mutate st) \<or> usub32 now (lastMutateTime (mutate st)) < 100 \<longrightarrow>
       triggerMutation d now tm st = Some st)
   \<and> (\<not> fullyDisabled (mutate st) \<and> 100 \<le> usub32 now (lastMutateTime (mutate st))
        \<and> triggerMutation d now tm st = Some st' \<and> usub32 now' now < 100 \<longrightarrow>
       lastMutateTime (mutate st') = uint32_t now
       \<and> triggerMutation d' now' tm' st' = Some st')"
proof (intro conjI impI)
  assume "fullyDisabled (mutate st) \<or> usub32 now (lastMutateTime (mutate st)) < 100"
  then show "triggerMutation d now tm st = Some st" by (rule triggerMutation_suppressed)
next
  assume a: "\<not> fullyDisabled (mutate st) \<and> 100 \<le> usub32 now (lastMutateTime (mutate st))
        \<and> triggerMutation d now tm st = Some st' \<and> usub32 now' now < 100"
  then show t: "lastMutateTime (mutate st') = uint32_t now"
    using triggerMutation_accepted_time by blast
  have "usub32 now' (lastMutateTime (mutate st')) < 100" using a t by simp
  then show "triggerMutation d' now' tm' st' = Some st'"
    by (intro triggerMutation_suppressed) simp
qed

theorem triggerMutation_rate_limit_witness:
  "usub32 50 (lastMutateTime (mutate synthBoot)) < 100
   \<and> triggerMutation \<lparr>random100 = 5, random2 = 0, random3 = 1, random41 = 20\<rparr> 50 50 synthBoot
       = Some synthBoot
   \<and> 100 \<le> usub32 1000 (lastMutateTime (mutate synthBoot)) \<and> usub32 1050 1000 < 100
   \<and> (\<exists>st'. triggerMutation \<lparr>random100 = 5, random2 = 0, random3 = 1, random41 = 20\<rparr>
                1000 1000 synthBoot = Some st'
            \<and> lastMutateTime (mutate st') = 1000
            \<and> triggerMutation \<lparr>random100 = 5, random2 = 0, random3 = 1, random41 = 20\<rparr>
                1050 1050 st' = Some st')"
proof -
  let ?d = "\<lparr>random100 = 5, random2 = 0, random3 = 1, random41 = 20\<rparr>"
  have t: "lastMutateTime (mutate synthBoot) = 0" "\<not> fullyDisabled (mutate synthBoot)"
    by (simp_all add: synthBoot_def mutateBoot_def)
  have u: "usub32 50 0 < 100" "100 \<le> usub32 1000 0" "usub32 1050 1000 < 100"
    "uint32_t 1000 = 1000"
    by (simp_all add: usub32_def uint32_t_def)
  have "drawsInRange ?d" "- 31 \<le> octaveShift synthBoot" "octaveShift synthBoot \<le> 31"
    by (simp_all add: drawsInRange_def synthBoot_def)
  then obtain st' where s: "triggerMutation ?d 1000 1000 synthBoot = Some st'"
    using triggerMutation_defined by blast
  show ?thesis
    using triggerMutation_rate_limit [of synthBoot 50 ?d 50]
      triggerMutation_rate_limit [of synthBoot 1000 ?d 1000 st' 1050 ?d 1050] s t u
    by simp
qed

subsection \<open>RATCHET loop pattern\<close>

lemma fmod1_frac: "0 \<le> x \<Longrightarrow> fmod1 x = frac x"
  by (simp add: fmod1_def truncf_def frac_def)

lemma loopPosition_range:
  assumes "0 < cycleTime"
  shows "0 \<le> loopPosition elapsed cycleTime \<and> loopPosition elapsed cycleTime < 1"
  using assms by (simp add: loopPosition_def)

lemma loopPosition_mod:
  "elapsed mod cycleTime = elapsed' mod cycleTime
     \<Longrightarrow> loopPosition elapsed cycleTime = loopPosition elapsed' cycleTime"
  by (simp add: loopPosition_def)

lemma evaluateLoopPattern_ratchet:
  assumes "loopActive ls" "pattern ls = LOOP_RATCHET" "0 < patternTempo ls"
  shows "evaluateLoopPattern ls now
           = Some (frac (loopPosition (usub32 now (patternStartTime ls)) (patternTempo ls) * 12)
                     < 1 / 2)"
proof -
  have "0 \<le> loopPosition (usub32 now (patternStartTime ls)) (patternTempo ls) * 12"
    using loopPosition_range [OF assms(3)] by simp
  then show ?thesis
    using assms
    by (simp add: evaluateLoopPattern_def Let_def fmod1_frac LOOP_RATCHET_def LOOP_OFF_def
        LOOP_TRIPLET_def LOOP_SWING_def LOOP_STACCATO_def LOOP_GATE_def)
qed

lemma frac_position:
  assumes "0 < T"
  shows "(frac (loopPosition e T * 12) < 1 / 2) = ((12 * (e mod T)) mod T * 2 < T)"
proof -
  let ?k = "e mod T"
  have "loopPosition e T * 12 = of_nat (12 * ?k) / of_nat T"
    by (simp add: loopPosition_def)
  moreover have "\<lfloor>(of_nat (12 * ?k) / of_nat T :: rat)\<rfloor> = int ((12 * ?k) div T)"
    by (simp only: floor_divide_of_nat_eq)
  ultimately have "frac (loopPosition e T * 12)
      = of_nat (12 * ?k) / of_nat T - of_nat ((12 * ?k) div T)" by (simp add: frac_def)
  also have "\<dots> = (of_nat (12 * ?k) - of_nat T * of_nat ((12 * ?k) div T)) / of_nat T"
    using assms by (simp add: field_simps)
  also have "of_nat (12 * ?k) - of_nat T * of_nat ((12 * ?k) div T) = (of_nat ((12 * ?k) mod T) :: rat)"
    by (metis add_diff_cancel_left' mult_div_mod_eq of_nat_add of_nat_mult)
  finally have "frac (loopPosition e T * 12) = of_nat ((12 * ?k) mod T) / of_nat T" .
  moreover have "((of_nat ((12 * ?k) mod T) / of_nat T :: rat) < 1 / 2)
                   = ((12 * ?k) mod T * 2 < T)"
  proof -
    have "((of_nat ((12 * ?k) mod T) / of_nat T :: rat) < 1 / 2)
            = ((of_nat ((12 * ?k) mod T * 2) :: rat) < of_nat T)"
      using assms by (simp add: field_simps)
    then show ?thesis by (simp only: of_nat_less_iff)
  qed
  ultimately show ?thesis by simp
qed

lemma floor_div_bounds:
  fixes n d :: nat
  assumes "0 < d"
  shows "d * (n div d) \<le> n" "n < d * (n div d) + d"
proof -
  have "d * (n div d) + n mod d = n" by simp
  moreover have "n mod d < d" using assms by simp
  ultimately show "d * (n div d) \<le> n" "n < d * (n div d) + d" by linarith+
qed

lemma ceil_div_bounds:
  fixes n d :: nat
  assumes "0 < d"
  shows "d * ((n + (d - 1)) div d) < n + d" "n \<le> d * ((n + (d - 1)) div d)"
  using floor_div_bounds [OF assms, of "n + (d - 1)"] assms by linarith+

lemma ratchet_windows:
  fixes X T :: nat
  assumes "24 \<le> T"
  defines "a \<equiv> (X + 11) div 12" and "b \<equiv> (2 * X + T + 23) div 24"
    and "c \<equiv> (X + T + 11) div 12"
  shows "a < b" "b < c"
    "T div 24 \<le> b - a" "b - a \<le> (T + 23) div 24"
    "T div 24 \<le> c - b" "c - b \<le> (T + 23) div 24"
    "\<And>k. a \<le> k \<Longrightarrow> k < c \<Longrightarrow> X \<le> 12 * k \<and> 12 * k < X + T"
    "\<And>k. (k < b) = (24 * k < 2 * X + T)"
proof -
  have a: "12 * a < X + 12" "X \<le> 12 * a"
    using ceil_div_bounds [of 12 X] by (simp_all add: a_def)
  have b: "24 * b < 2 * X + T + 24" "2 * X + T \<le> 24 * b"
    using ceil_div_bounds [of 24 "2 * X + T"] by (simp_all add: b_def)
  have c: "12 * c < X + T + 12" "X + T \<le> 12 * c"
    using ceil_div_bounds [of 12 "X + T"] by (simp_all add: c_def)
  have q: "24 * (T div 24) \<le> T" using floor_div_bounds [of 24 T] by simp
  have q': "24 * ((T + 23) div 24) < T + 24" "T \<le> 24 * ((T + 23) div 24)"
    using ceil_div_bounds [of 24 T] by simp_all
  show ab: "a < b" using a b assms by linarith
  show bc: "b < c" using b c assms by linarith
  show "T div 24 \<le> b - a" using a b q ab by linarith
  show "b - a \<le> (T + 23) div 24" using a b q' ab by linarith
  show "T div 24 \<le> c - b" using b c q bc by linarith
  show "c - b \<le> (T + 23) div 24" using b c q' bc by linarith
  show "X \<le> 12 * k \<and> 12 * k < X + T" if "a \<le> k" "k < c" for k
    using that a c by linarith
  show "(k < b) = (24 * k < 2 * X + T)" for k
    using b by linarith
qed


lemma ratchet_gate_window:
  fixes T j k :: nat
  assumes "24 \<le> T" "(j * T + 11) div 12 \<le> k" "k < ((j + 1) * T + 11) div 12"
  shows "((12 * k) mod T * 2 < T) = (k < ((2 * j + 1) * T + 23) div 24)"
proof -
  have e: "(j + 1) * T + 11 = j * T + T + 11" "(2 * j + 1) * T + 23 = 2 * (j * T) + T + 23"
    by (simp_all add: algebra_simps)
  have w: "j * T \<le> 12 * k \<and> 12 * k < j * T + T"
    using ratchet_windows(7) [OF assms(1), of "j * T" k] assms(2,3) by (simp only: e)
  then have "(12 * k) div T = j"
    by (intro div_nat_eqI) (simp_all add: mult.commute)
  then have m: "(12 * k) mod T = 12 * k - j * T"
    by (simp add: modulo_nat_def mult.commute)
  have "((12 * k - j * T) * 2 < T) = (24 * k < 2 * (j * T) + T)" using w by linarith
  also have "\<dots> = (k < (2 * (j * T) + T + 23) div 24)"
    using ratchet_windows(8) [OF assms(1), of k "j * T"] by simp
  finally show ?thesis by (simp only: m e)
qed

lemma usub32_add: "usub32 (b + k) b = k mod 4294967296"
proof -
  let ?M = "4294967296 :: nat"
  let ?r = "b mod ?M"
  have r: "?r \<le> (b + k) mod ?M + ?M" by (simp add: trans_le_add2)
  have "int (((b + k) mod ?M + ?M - ?r) mod ?M)
          = (int ((b + k) mod ?M) + int ?M - int ?r) mod int ?M"
    using r by (simp add: zmod_int of_nat_diff)
  also have "\<dots> = (int ((b + k) mod ?M) - int ?r + int ?M) mod int ?M"
    by (simp add: algebra_simps)
  also have "\<dots> = (int ((b + k) mod ?M) - int ?r) mod int ?M"
    by (simp only: mod_add_self2)
  also have "\<dots> = ((int b + int k) mod int ?M - int b mod int ?M) mod int ?M"
    by (simp add: zmod_int)
  also have "\<dots> = (int b + int k - int b) mod int ?M"
    by (simp only: mod_diff_eq)
  also have "\<dots> = int (k mod ?M)" by (simp add: zmod_int)
  finally show ?thesis unfolding usub32_def uint32_t_def by (simp only: of_nat_eq_iff)
qed

lemma evaluateLoopPattern_ratchet_int:
  assumes "loopActive ls" "pattern ls = LOOP_RATCHET" "0 < patternTempo ls"
  shows "evaluateLoopPattern ls now
           = Some ((12 * (usub32 now (patternStartTime ls) mod patternTempo ls))
                     mod patternTempo ls * 2 < patternTempo ls)"
  using frac_position [OF assms(3)] by (simp only: evaluateLoopPattern_ratchet [OF assms])


text \<open>
  Claim C8, as the code has it. The RATCHET gate is open exactly when
  \<open>frac (position * 12) < 1/2\<close> with \<open>position = (elapsed mod T) / T\<close>, so it is a
  function of \<open>elapsed mod T\<close>, and every offset below \<open>T\<close> occurs as
  \<open>elapsed mod T\<close>. For a period \<open>T\<close> of at least 24 ms (the firmware sets 200 to 1000)
  the period is tiled by 12 sub-cycles, sub-cycle \<open>j\<close> running from \<open>\<lceil>j*T/12\<rceil>\<close> to
  \<open>\<lceil>(j+1)*T/12\<rceil>\<close>: the gate is open from the start of the sub-cycle up to
  \<open>\<lceil>(2*j+1)*T/24\<rceil>\<close> and closed from there to the end, both runs are non-empty, and
  each lasts \<open>\<lfloor>T/24\<rfloor>\<close> or \<open>\<lceil>T/24\<rceil>\<close> ms. The duty is exactly 50% when 24 divides
  \<open>T\<close>.
\<close>

theorem ratchet_gate_period:
  assumes "loopActive ls" "pattern ls = LOOP_RATCHET" "24 \<le> patternTempo ls"
    "patternTempo ls < 65536" "j < 12"
  shows "(\<forall>now. evaluateLoopPattern ls now
             = Some (frac (loopPosition (usub32 now (patternStartTime ls)) (patternTempo ls) * 12)
                       < 1 / 2))
       \<and> (\<forall>now now'. usub32 now' (patternStartTime ls) mod patternTempo ls
                         = usub32 now (patternStartTime ls) mod patternTempo ls
              \<longrightarrow> evaluateLoopPattern ls now' = evaluateLoopPattern ls now)
       \<and> (\<forall>k < patternTempo ls.
              usub32 (patternStartTime ls + k) (patternStartTime ls) mod patternTempo ls = k)
       \<and> (0 * patternTempo ls + 11) div 12 = 0
       \<and> (12 * patternTempo ls + 11) div 12 = patternTempo ls
       \<and> (j * patternTempo ls + 11) div 12 < ((2 * j + 1) * patternTempo ls + 23) div 24
       \<and> ((2 * j + 1) * patternTempo ls + 23) div 24 < ((j + 1) * patternTempo ls + 11) div 12
       \<and> (\<forall>now. (j * patternTempo ls + 11) div 12
                     \<le> usub32 now (patternStartTime ls) mod patternTempo ls
                 \<and> usub32 now (patternStartTime ls) mod patternTempo ls
                     < ((2 * j + 1) * patternTempo ls + 23) div 24
              \<longrightarrow> evaluateLoopPattern ls now = Some True)
       \<and> (\<forall>now. ((2 * j + 1) * patternTempo ls + 23) div 24
                     \<le> usub32 now (patternStartTime ls) mod patternTempo ls
                 \<and> usub32 now (patternStartTime ls) mod patternTempo ls
                     < ((j + 1) * patternTempo ls + 11) div 12
              \<longrightarrow> evaluateLoopPattern ls now = Some False)
       \<and> patternTempo ls div 24
            \<le> ((2 * j + 1) * patternTempo ls + 23) div 24 - (j * patternTempo ls + 11) div 12
       \<and> ((2 * j + 1) * patternTempo ls + 23) div 24 - (j * patternTempo ls + 11) div 12
            \<le> (patternTempo ls + 23) div 24
       \<and> patternTempo ls div 24
            \<le> ((j + 1) * patternTempo ls + 11) div 12 - ((2 * j + 1) * patternTempo ls + 23) div 24
       \<and> ((j + 1) * patternTempo ls + 11) div 12 - ((2 * j + 1) * patternTempo ls + 23) div 24
            \<le> (patternTempo ls + 23) div 24
       \<and> (24 dvd patternTempo ls \<longrightarrow>
              ((2 * j + 1) * patternTempo ls + 23) div 24 - (j * patternTempo ls + 11) div 12
                = patternTempo ls div 24
            \<and> ((j + 1) * patternTempo ls + 11) div 12 - ((2 * j + 1) * patternTempo ls + 23) div 24
                = patternTempo ls div 24)"
proof -
  let ?T = "patternTempo ls"
  let ?s = "patternStartTime ls"
  let ?a = "(j * ?T + 11) div 12"
  let ?b = "((2 * j + 1) * ?T + 23) div 24"
  let ?c = "((j + 1) * ?T + 11) div 12"
  have T: "0 < ?T" using assms(3) by simp
  have e: "(j + 1) * ?T + 11 = j * ?T + ?T + 11" "(2 * j + 1) * ?T + 23 = 2 * (j * ?T) + ?T + 23"
    by (simp_all add: algebra_simps)
  note w = ratchet_windows(1-6) [OF assms(3), of "j * ?T", folded e]
  have g: "evaluateLoopPattern ls now
             = Some (frac (loopPosition (usub32 now ?s) ?T * 12) < 1 / 2)" for now
    using assms(1,2) T by (rule evaluateLoopPattern_ratchet)
  have i: "evaluateLoopPattern ls now
             = Some ((12 * (usub32 now ?s mod ?T)) mod ?T * 2 < ?T)" for now
    using assms(1,2) T by (rule evaluateLoopPattern_ratchet_int)
  have p: "\<forall>now now'. usub32 now' ?s mod ?T = usub32 now ?s mod ?T
             \<longrightarrow> evaluateLoopPattern ls now' = evaluateLoopPattern ls now"
    by (simp add: i)
  have x: "\<forall>k < ?T. usub32 (?s + k) ?s mod ?T = k"
    using assms(4) by (simp add: usub32_add)
  have t: "(0 * ?T + 11) div 12 = 0" "(12 * ?T + 11) div 12 = ?T" by simp_all
  have o: "\<forall>now. ?a \<le> usub32 now ?s mod ?T \<and> usub32 now ?s mod ?T < ?b
             \<longrightarrow> evaluateLoopPattern ls now = Some True"
  proof (intro allI impI)
    fix now
    assume h: "?a \<le> usub32 now ?s mod ?T \<and> usub32 now ?s mod ?T < ?b"
    then have "usub32 now ?s mod ?T < ?c" using w(2) by simp
    with h show "evaluateLoopPattern ls now = Some True"
      using ratchet_gate_window [OF assms(3), of j "usub32 now ?s mod ?T"] by (simp add: i)
  qed
  have f: "\<forall>now. ?b \<le> usub32 now ?s mod ?T \<and> usub32 now ?s mod ?T < ?c
             \<longrightarrow> evaluateLoopPattern ls now = Some False"
  proof (intro allI impI)
    fix now
    assume h: "?b \<le> usub32 now ?s mod ?T \<and> usub32 now ?s mod ?T < ?c"
    then have "?a \<le> usub32 now ?s mod ?T" using w(1) by simp
    with h show "evaluateLoopPattern ls now = Some False"
      using ratchet_gate_window [OF assms(3), of j "usub32 now ?s mod ?T"] by (simp add: i)
  qed
  have d: "24 dvd ?T \<longrightarrow> ?b - ?a = ?T div 24 \<and> ?c - ?b = ?T div 24"
  proof
    assume "24 dvd ?T"
    then obtain m where "?T = 24 * m" by (rule dvdE)
    then have "(?T + 23) div 24 = ?T div 24" by simp
    then show "?b - ?a = ?T div 24 \<and> ?c - ?b = ?T div 24" using w(3-6) by simp
  qed
  show ?thesis using g p x t w o f d by blast
qed

theorem ratchet_gate_period_witness:
  "loopActive (loopStateBoot\<lparr>loopActive := True, pattern := LOOP_RATCHET\<rparr>)
   \<and> (24::nat) \<le> 480 \<and> (480::nat) < 65536 \<and> (1::nat) < 12 \<and> (24::nat) dvd 480
   \<and> (1 * 480 + 11) div 12 = (40::nat) \<and> ((2 * 1 + 1) * 480 + 23) div 24 = (60::nat)
   \<and> ((1 + 1) * 480 + 11) div 12 = (80::nat)
   \<and> evaluateLoopPattern (loopStateBoot\<lparr>loopActive := True, pattern := LOOP_RATCHET\<rparr>) 45
       = Some True
   \<and> evaluateLoopPattern (loopStateBoot\<lparr>loopActive := True, pattern := LOOP_RATCHET\<rparr>) 70
       = Some False"
proof -
  let ?L = "loopStateBoot\<lparr>loopActive := True, pattern := LOOP_RATCHET\<rparr>"
  have p: "loopActive ?L" "pattern ?L = LOOP_RATCHET" "24 \<le> patternTempo ?L"
    "patternTempo ?L < 65536" "(1::nat) < 12"
    by (simp_all add: loopStateBoot_def)
  have s: "patternStartTime ?L = 0" "patternTempo ?L = 480"
    by (simp_all add: loopStateBoot_def)
  have u: "usub32 45 0 = 45" "usub32 70 0 = 70"
    by (simp_all add: usub32_def uint32_t_def)
  note t = ratchet_gate_period [OF p]
  have "evaluateLoopPattern ?L 45 = Some True"
    using t [THEN conjunct2, THEN conjunct2, THEN conjunct2, THEN conjunct2, THEN conjunct2,
        THEN conjunct2, THEN conjunct2, THEN conjunct1, rule_format, of 45]
    by (simp add: s u)
  moreover have "evaluateLoopPattern ?L 70 = Some False"
    using t [THEN conjunct2, THEN conjunct2, THEN conjunct2, THEN conjunct2, THEN conjunct2,
        THEN conjunct2, THEN conjunct2, THEN conjunct2, THEN conjunct1, rule_format, of 70]
    by (simp add: s u)
  ultimately show ?thesis using p(1) by simp
qed

text \<open>
  A 50% duty in every sub-cycle, as claim C8 states it, fails at the pattern period of
  200 ms that the tempo pot reaches: the first sub-cycle lasts 17 ms, the gate is open at
  the elapsed times 0 to 8 (9 ms) and closed at 9 to 16 (8 ms), and opens again at 17.
\<close>

theorem ratchet_duty_counterexample:
  "map (evaluateLoopPattern
          (loopStateBoot\<lparr>loopActive := True, pattern := LOOP_RATCHET, patternTempo := 200\<rparr>))
       [0, 1, 2, 3, 4, 5, 6, 7, 8, 9, 10, 11, 12, 13, 14, 15, 16, 17]
   = [Some True, Some True, Some True, Some True, Some True, Some True, Some True, Some True,
      Some True, Some False, Some False, Some False, Some False, Some False, Some False,
      Some False, Some False, Some True]"
proof -
  let ?L = "loopStateBoot\<lparr>loopActive := True, pattern := LOOP_RATCHET, patternTempo := 200\<rparr>"
  have p: "loopActive ?L" "pattern ?L = LOOP_RATCHET" "0 < patternTempo ?L"
    by (simp_all add: loopStateBoot_def)
  have s: "patternStartTime ?L = 0" "patternTempo ?L = 200"
    by (simp_all add: loopStateBoot_def)
  show ?thesis
    by (simp add: evaluateLoopPattern_ratchet_int [OF p] s usub32_def uint32_t_def)
qed

subsection \<open>Sequencer step advancement\<close>

lemma skipDisabled_count:
  "stepsChecked \<le> 8 \<Longrightarrow> snd (skipDisabled en nextStep stepsChecked) \<le> 8"
proof (induction en nextStep stepsChecked rule: skipDisabled.induct)
  case (1 en nextStep stepsChecked)
  show ?case
  proof (cases "\<not> en ! nextStep \<and> stepsChecked < 8")
    case True
    then have "snd (skipDisabled en ((nextStep + 1) mod 8) (stepsChecked + 1)) \<le> 8"
      using "1.IH" by simp
    then show ?thesis using True by (subst skipDisabled.simps) simp
  next
    case False
    then show ?thesis using "1.prems" by (subst skipDisabled.simps) auto
  qed
qed

lemma skipDisabled_range:
  "nextStep < 8 \<Longrightarrow> fst (skipDisabled en nextStep stepsChecked) < 8"
proof (induction en nextStep stepsChecked rule: skipDisabled.induct)
  case (1 en nextStep stepsChecked)
  show ?case
  proof (cases "\<not> en ! nextStep \<and> stepsChecked < 8")
    case True
    then have "fst (skipDisabled en ((nextStep + 1) mod 8) (stepsChecked + 1)) < 8"
      using "1.IH" by simp
    then show ?thesis using True by (subst skipDisabled.simps) simp
  next
    case False
    then show ?thesis using "1.prems" by (subst skipDisabled.simps) auto
  qed
qed














subsection \<open>Recorder capacity\<close>









end
